theory Spec2Isabelle
  imports Complex_Main "HOL-Library.Multiset" "HOL-Library.Word" "HOL-Library.Monad_Syntax"
begin

section \<open>Comparators and ordered sequences\<close>

text \<open>
  \<^verbatim>\<open>vergesort.h\<close> sorts a random-access range \<open>[first, last)\<close> in place under a
  comparator \<open>compare(a, b)\<close> ("a ranks before b").  The range is modelled as a list,
  iterators as indices into it (\<open>first\<close> is index \<open>0\<close>, \<open>last\<close> is the length), and the
  comparator as a curried predicate.
\<close>

type_synonym 'a compare = "'a \<Rightarrow> 'a \<Rightarrow> bool"

text \<open>
  A strict weak ordering: irreflexive, transitive, and with a transitive
  incomparability relation.
\<close>

definition strict_weak_order :: "'a compare \<Rightarrow> bool" where
  "strict_weak_order C \<longleftrightarrow>
     (\<forall>a. \<not> C a a) \<and>
     (\<forall>a b c. C a b \<longrightarrow> C b c \<longrightarrow> C a c) \<and>
     (\<forall>a b c. \<not> C a b \<longrightarrow> \<not> C b a \<longrightarrow> \<not> C b c \<longrightarrow> \<not> C c b \<longrightarrow> \<not> C a c \<and> \<not> C c a)"

text \<open>
  A sequence is ordered under \<open>C\<close> when no element ranks before its left neighbour:
  \<open>C (S[i+1]) (S[i])\<close> is false for every adjacent pair.
\<close>

definition ordered :: "'a compare \<Rightarrow> 'a list \<Rightarrow> bool" where
  "ordered C xs = successively (\<lambda>a b. \<not> C b a) xs"

section \<open>Memory, iterator ranges and the call log\<close>

text \<open>
  The routines called by \<open>vergesort\<close> mutate the caller's sequence.  The model threads
  the sequence through every call, together with a log of the calls made, each paired
  with the contents of the sequence at the moment of the call.  The log is what the
  statements about "which calls happen" are about; it does not influence the sequence.
\<close>

datatype event =
    Pdqsort nat nat
  | Reverse nat nat
  | Inplace_merge nat nat nat
  | Inplace_merge3 nat nat nat nat

record 'a memory =
  seq :: "'a list"
  calls :: "(event \<times> 'a list) list"

definition log_call :: "event \<Rightarrow> ('a, 'z) memory_scheme \<Rightarrow> ('a, 'z) memory_scheme" where
  "log_call e m = m\<lparr>calls := calls m @ [(e, seq m)]\<rparr>"

definition trace :: "('a, 'z) memory_scheme \<Rightarrow> event list" where
  "trace m = map fst (calls m)"

text \<open>The elements of \<open>[b, e)\<close>, and a list operation applied to that range only.\<close>

definition subrange :: "nat \<Rightarrow> nat \<Rightarrow> 'a list \<Rightarrow> 'a list" where
  "subrange b e xs = take (e - b) (drop b xs)"

definition on_range :: "nat \<Rightarrow> nat \<Rightarrow> ('a list \<Rightarrow> 'a list) \<Rightarrow> 'a list \<Rightarrow> 'a list" where
  "on_range b e f xs = take b xs @ f (subrange b e xs) @ drop e xs"

text \<open>
  Reading through an iterator outside the sequence is undefined behaviour in C++; the
  model makes it the value \<open>None\<close>, as it does for a call on an iterator range that is
  not a range of the sequence, and for a loop that does not return.
\<close>

definition deref :: "'a list \<Rightarrow> nat \<Rightarrow> 'a option" where
  "deref xs i = (if i < length xs then Some (xs ! i) else None)"

section \<open>The collaborators of vergesort\<close>

text \<open>
  Modelled from the spec: \<open>pdqsort\<close> is defined in \<^verbatim>\<open>pdqsort.h\<close>, which is not among the
  source files.  The spec gives its contract only ("sort this sub-range with this
  comparator", "in-place, any order achieving full ordering under compare"), so the
  sub-sort is a parameter \<open>sub :: 'a compare \<Rightarrow> 'a list \<Rightarrow> 'a list\<close> of the model.  The
  first half of the contract: whatever the comparator, the sub-sort only rearranges the
  elements it is given.
\<close>

definition sub_sort_permutes :: "('a compare \<Rightarrow> 'a list \<Rightarrow> 'a list) \<Rightarrow> bool" where
  "sub_sort_permutes sub \<longleftrightarrow> (\<forall>C xs. mset (sub C xs) = mset xs)"

text \<open>
  Modelled from the spec: the second half of the contract of \<open>pdqsort\<close>.  Under a strict
  weak ordering the result is ordered.
\<close>

definition sub_sort_orders :: "('a compare \<Rightarrow> 'a list \<Rightarrow> 'a list) \<Rightarrow> bool" where
  "sub_sort_orders sub \<longleftrightarrow> (\<forall>C xs. strict_weak_order C \<longrightarrow> ordered C (sub C xs))"

text \<open>Modelled from the spec: the whole contract of \<open>pdqsort\<close>.\<close>

definition sub_sort_contract :: "('a compare \<Rightarrow> 'a list \<Rightarrow> 'a list) \<Rightarrow> bool" where
  "sub_sort_contract sub \<longleftrightarrow> sub_sort_permutes sub \<and> sub_sort_orders sub"

text \<open>
  The call \<open>pdqsort(b, e, compare)\<close>: the sub-sort applied to the range \<open>[b, e)\<close>, logged.
\<close>

definition pdqsort ::
  "('a compare \<Rightarrow> 'a list \<Rightarrow> 'a list) \<Rightarrow> nat \<Rightarrow> nat \<Rightarrow> 'a compare \<Rightarrow>
   ('a, 'z) memory_scheme \<Rightarrow> ('a, 'z) memory_scheme option" where
  "pdqsort sub b e C m =
     (if b \<le> e \<and> e \<le> length (seq m)
      then Some ((log_call (Pdqsort b e) m)\<lparr>seq := on_range b e (sub C) (seq m)\<rparr>)
      else None)"

text \<open>\<open>std::reverse(b, e)\<close> of the C++ standard library.\<close>

definition reverse ::
  "nat \<Rightarrow> nat \<Rightarrow> ('a, 'z) memory_scheme \<Rightarrow> ('a, 'z) memory_scheme option" where
  "reverse b e m =
     (if b \<le> e \<and> e \<le> length (seq m)
      then Some ((log_call (Reverse b e) m)\<lparr>seq := on_range b e rev (seq m)\<rparr>)
      else None)"

text \<open>
  \<open>std::inplace_merge(first, middle, last, compare)\<close> of the C++ standard library: the
  stable merge of the two adjacent ranges, an element of the right range going first
  only when it ranks strictly before the element of the left range.
\<close>

fun merge :: "'a compare \<Rightarrow> 'a list \<Rightarrow> 'a list \<Rightarrow> 'a list" where
  "merge C [] ys = ys"
| "merge C xs [] = xs"
| "merge C (x # xs) (y # ys) =
     (if C y x then y # merge C (x # xs) ys else x # merge C xs (y # ys))"

definition inplace_merge ::
  "nat \<Rightarrow> nat \<Rightarrow> nat \<Rightarrow> 'a compare \<Rightarrow>
   ('a, 'z) memory_scheme \<Rightarrow> ('a, 'z) memory_scheme option" where
  "inplace_merge first middle last_it C m =
     (if first \<le> middle \<and> middle \<le> last_it \<and> last_it \<le> length (seq m)
      then Some ((log_call (Inplace_merge first middle last_it) m)
                   \<lparr>seq := take first (seq m)
                           @ merge C (subrange first middle (seq m)) (subrange middle last_it (seq m))
                           @ drop last_it (seq m)\<rparr>)
      else None)"

section \<open>vergesort\_detail\<close>

text \<open>
  \<open>inplace_merge3\<close> (vergesort.h, lines 41-58): two in-place merges, in the order chosen
  by comparing the signed distances \<open>std::distance(first, middle1)\<close> and
  \<open>std::distance(middle2, last)\<close>.
\<close>

definition inplace_merge3 ::
  "nat \<Rightarrow> nat \<Rightarrow> nat \<Rightarrow> nat \<Rightarrow> 'a compare \<Rightarrow>
   ('a, 'z) memory_scheme \<Rightarrow> ('a, 'z) memory_scheme option" where
  "inplace_merge3 first middle1 middle2 last_it C m =
     (let m0 = log_call (Inplace_merge3 first middle1 middle2 last_it) m in
      if int middle1 - int first < int last_it - int middle2
      then do {
        m1 \<leftarrow> inplace_merge first middle1 middle2 C m0;
        inplace_merge first middle2 last_it C m1
      }
      else do {
        m1 \<leftarrow> inplace_merge middle1 middle2 last_it C m0;
        inplace_merge first middle1 last_it C m1
      })"

text \<open>
  \<open>is_sorted_until\<close> (lines 61-77).  The loop \<open>while (++next != last)\<close> is
  \<open>is_sorted_until_loop\<close>, entered with \<open>next = first\<close>.
\<close>

partial_function (option) is_sorted_until_loop ::
  "'a compare \<Rightarrow> 'a list \<Rightarrow> nat \<Rightarrow> nat \<Rightarrow> nat \<Rightarrow> nat option" where
  "is_sorted_until_loop C xs last_it first next_it =
     (if next_it + 1 \<noteq> last_it
      then do {
        a \<leftarrow> deref xs (next_it + 1);
        b \<leftarrow> deref xs first;
        if C a b then Some (next_it + 1)
        else is_sorted_until_loop C xs last_it (next_it + 1) (next_it + 1)
      }
      else Some last_it)"

declare is_sorted_until_loop.simps [code]

definition is_sorted_until :: "nat \<Rightarrow> nat \<Rightarrow> 'a compare \<Rightarrow> 'a list \<Rightarrow> nat option" where
  "is_sorted_until first last_it C xs =
     (if first \<noteq> last_it then is_sorted_until_loop C xs last_it first first
      else Some last_it)"

section \<open>vergesort\<close>

text \<open>
  Modelled from the spec: \<open>pdqsort_detail::log2\<close> is defined in \<^verbatim>\<open>pdqsort.h\<close>, which is
  not among the source files.  The spec writes the threshold as \<open>size / log2(size)\<close>;
  the quotient is stored in an \<open>int\<close>, and \<open>log2\<close> is taken as the integer part of the
  binary logarithm.
\<close>

function log2 :: "int \<Rightarrow> int" where
  "log2 n = (if n \<le> 1 then 0 else 1 + log2 (n div 2))"
  by pat_completeness auto
termination
  by (relation "measure nat") auto

declare log2.simps [simp del]

text \<open>
  Line 94: \<open>int unstable_limit = dist / pdqsort_detail::log2(dist)\<close>.  The division is
  an integer division, undefined for a zero divisor; \<open>dist\<close> (here \<open>distance\<close>) has the iterators'
  difference type and the quotient is narrowed to a 32-bit \<open>int\<close>.
\<close>

definition unstable_limit :: "int \<Rightarrow> int option" where
  "unstable_limit distance =
     (if log2 distance = 0 then None
      else Some (sint (word_of_int (distance div log2 distance) :: 32 word)))"

text \<open>
  The variables of the main loop: the sequence and the call log, the marker
  \<open>begin_unstable\<close> and the cursor pair \<open>current\<close>, \<open>next\<close>.
\<close>

record 'a scan = "'a memory" +
  begin_unstable :: nat
  current :: nat
  next_it :: nat

text \<open>\<open>++current; ++next;\<close> (lines 139-140 and 173-174).\<close>

definition advance :: "'a scan \<Rightarrow> 'a scan" where
  "advance s = s\<lparr>current := current s + 1, next_it := next_it s + 1\<rparr>"

text \<open>The scan for a decreasing range, lines 109-114.\<close>

partial_function (option) decreasing_range ::
  "'a compare \<Rightarrow> nat \<Rightarrow> 'a scan \<Rightarrow> 'a scan option" where
  "decreasing_range C last_it s =
     (if next_it s \<noteq> last_it
      then do {
        a \<leftarrow> deref (seq s) (current s);
        b \<leftarrow> deref (seq s) (next_it s);
        if C a b then Some s else decreasing_range C last_it (advance s)
      }
      else Some s)"

declare decreasing_range.simps [code]

text \<open>The scan for an increasing range, lines 145-150.\<close>

partial_function (option) increasing_range ::
  "'a compare \<Rightarrow> nat \<Rightarrow> 'a scan \<Rightarrow> 'a scan option" where
  "increasing_range C last_it s =
     (if next_it s \<noteq> last_it
      then do {
        a \<leftarrow> deref (seq s) (next_it s);
        b \<leftarrow> deref (seq s) (current s);
        if C a b then Some s else increasing_range C last_it (advance s)
      }
      else Some s)"

declare increasing_range.simps [code]

text \<open>
  Lines 106-135: detect a decreasing run \<open>[begin_rng, next)\<close>, then "reverse and merge".
\<close>

definition decreasing_run ::
  "('a compare \<Rightarrow> 'a list \<Rightarrow> 'a list) \<Rightarrow> 'a compare \<Rightarrow> int \<Rightarrow> nat \<Rightarrow>
   'a scan \<Rightarrow> 'a scan option" where
  "decreasing_run sub C limit last_it s0 =
     (let begin_rng = current s0 in do {
        s \<leftarrow> decreasing_range C last_it s0;
        if int (next_it s) - int begin_rng > limit
        then
          if begin_unstable s \<noteq> last_it
          then do {
            s1 \<leftarrow> pdqsort sub (begin_unstable s) begin_rng C s;
            s2 \<leftarrow> reverse begin_rng (next_it s) s1;
            s3 \<leftarrow> inplace_merge3 0 (begin_unstable s) begin_rng (next_it s) C s2;
            Some (s3\<lparr>begin_unstable := last_it\<rparr>)
          }
          else do {
            s1 \<leftarrow> reverse begin_rng (next_it s) s;
            inplace_merge 0 begin_rng (next_it s) C s1
          }
        else
          if begin_unstable s = last_it then Some (s\<lparr>begin_unstable := begin_rng\<rparr>)
          else Some s
      })"

text \<open>Lines 142-169: detect an increasing run \<open>[begin_rng, next)\<close>, then "merge".\<close>

definition increasing_run ::
  "('a compare \<Rightarrow> 'a list \<Rightarrow> 'a list) \<Rightarrow> 'a compare \<Rightarrow> int \<Rightarrow> nat \<Rightarrow>
   'a scan \<Rightarrow> 'a scan option" where
  "increasing_run sub C limit last_it s0 =
     (let begin_rng = current s0 in do {
        s \<leftarrow> increasing_range C last_it s0;
        if int (next_it s) - int begin_rng > limit
        then
          if begin_unstable s \<noteq> last_it
          then do {
            s1 \<leftarrow> pdqsort sub (begin_unstable s) begin_rng C s;
            s2 \<leftarrow> inplace_merge3 0 (begin_unstable s) begin_rng (next_it s) C s1;
            Some (s2\<lparr>begin_unstable := last_it\<rparr>)
          }
          else inplace_merge 0 begin_rng (next_it s) C s
        else
          if begin_unstable s = last_it then Some (s\<lparr>begin_unstable := begin_rng\<rparr>)
          else Some s
      })"

text \<open>The loop \<open>while (true)\<close>, lines 104-175, left by either \<open>break\<close>.\<close>

partial_function (option) main_loop ::
  "('a compare \<Rightarrow> 'a list \<Rightarrow> 'a list) \<Rightarrow> 'a compare \<Rightarrow> int \<Rightarrow> nat \<Rightarrow>
   'a scan \<Rightarrow> 'a scan option" where
  "main_loop sub C limit last_it s0 = do {
     s1 \<leftarrow> decreasing_run sub C limit last_it s0;
     if next_it s1 = last_it then Some s1
     else do {
       s2 \<leftarrow> increasing_run sub C limit last_it (advance s1);
       if next_it s2 = last_it then Some s2
       else main_loop sub C limit last_it (advance s2)
     }
   }"

declare main_loop.simps [code]

text \<open>Lines 177-181: the pending unstable partition, if any, is sorted and merged.\<close>

definition final_flush ::
  "('a compare \<Rightarrow> 'a list \<Rightarrow> 'a list) \<Rightarrow> 'a compare \<Rightarrow> nat \<Rightarrow>
   'a scan \<Rightarrow> 'a scan option" where
  "final_flush sub C last_it s =
     (if begin_unstable s \<noteq> last_it
      then do {
        s1 \<leftarrow> pdqsort sub (begin_unstable s) last_it C s;
        inplace_merge 0 (begin_unstable s) last_it C s1
      }
      else Some s)"

text \<open>
  Lines 93-102: the state in which the main loop is entered.  \<open>is_sorted_until\<close> never
  returns \<open>first\<close> on a non-empty range, so the subtraction stays inside the range.
\<close>

definition initial_scan :: "'a compare \<Rightarrow> 'a list \<Rightarrow> 'a scan option" where
  "initial_scan C xs = do {
     p \<leftarrow> is_sorted_until 0 (length xs) C xs;
     if p = 0 then None
     else Some \<lparr>seq = xs, calls = [], begin_unstable = length xs,
                current = p - 1, next_it = p\<rparr>
   }"

text \<open>
  \<open>vergesort(first, last, compare)\<close>, lines 80-182, on the sequence \<open>xs\<close> of the elements
  of \<open>[first, last)\<close>.  The result is the final sequence with the log of the calls made.
\<close>

definition vergesort ::
  "('a compare \<Rightarrow> 'a list \<Rightarrow> 'a list) \<Rightarrow> 'a compare \<Rightarrow> 'a list \<Rightarrow> 'a memory option" where
  "vergesort sub C xs =
     (let distance = int (length xs) in
      if distance < 80
      then pdqsort sub 0 (length xs) C \<lparr>seq = xs, calls = []\<rparr>
      else do {
        limit \<leftarrow> unstable_limit distance;
        s0 \<leftarrow> initial_scan C xs;
        s1 \<leftarrow> main_loop sub C limit (length xs) s0;
        s2 \<leftarrow> final_flush sub C (length xs) s1;
        Some (memory.truncate s2)
      })"

section \<open>Invariants of the main loop\<close>

text \<open>
  A logged merge has sorted operands when the ranges it is given were ordered in the
  sequence as it was at the call.
\<close>

fun sorted_operands :: "'a compare \<Rightarrow> event \<Rightarrow> 'a list \<Rightarrow> bool" where
  "sorted_operands C (Inplace_merge f m l) ys \<longleftrightarrow>
     ordered C (subrange f m ys) \<and> ordered C (subrange m l ys)"
| "sorted_operands C (Inplace_merge3 f m1 m2 l) ys \<longleftrightarrow>
     ordered C (subrange f m1 ys) \<and> ordered C (subrange m1 m2 ys) \<and> ordered C (subrange m2 l ys)"
| "sorted_operands C (Pdqsort b e) ys \<longleftrightarrow> True"
| "sorted_operands C (Reverse b e) ys \<longleftrightarrow> True"

text \<open>
  A logged merge goes into the prefix when its range begins at \<open>first\<close>; the one
  exception is the merge of the right pair inside a three-way merge that itself begins
  at \<open>first\<close> (logged with the same contents of the sequence).
\<close>

fun into_prefix :: "(event \<times> 'a list) list \<Rightarrow> event \<Rightarrow> 'a list \<Rightarrow> bool" where
  "into_prefix lg (Inplace_merge f m l) ys \<longleftrightarrow>
     f = 0 \<or> (Inplace_merge3 0 f m l, ys) \<in> set lg"
| "into_prefix lg (Inplace_merge3 f m1 m2 l) ys \<longleftrightarrow> f = 0"
| "into_prefix lg (Pdqsort b e) ys \<longleftrightarrow> True"
| "into_prefix lg (Reverse b e) ys \<longleftrightarrow> True"

definition merges_ok :: "'a compare \<Rightarrow> (event \<times> 'a list) list \<Rightarrow> bool" where
  "merges_ok C lg \<longleftrightarrow>
     (\<forall>(e, ys)\<in>set lg. sorted_operands C e ys \<and> into_prefix lg e ys)"

text \<open>
  The part of the sequence that the main loop keeps sorted: up to \<open>begin_unstable\<close>
  when a batch is pending, up to \<open>current\<close> (the start of the run about to be detected)
  when \<open>begin_unstable\<close> is the sentinel \<open>last\<close>.
\<close>

definition sorted_prefix :: "'a compare \<Rightarrow> nat \<Rightarrow> 'a scan \<Rightarrow> bool" where
  "sorted_prefix C last_it s \<longleftrightarrow>
     ordered C (take (if begin_unstable s \<noteq> last_it then begin_unstable s else current s) (seq s))"

text \<open>
  The state when the detection of a run starts (lines 106 and 142).  The flag \<open>ord\<close>
  switches the part of the invariant that is about order on; the rest holds under any
  comparator.
\<close>

definition run_start_inv :: "bool \<Rightarrow> 'a compare \<Rightarrow> 'a list \<Rightarrow> 'a scan \<Rightarrow> bool" where
  "run_start_inv ord C xs s \<longleftrightarrow>
     length (seq s) = length xs \<and> mset (seq s) = mset xs \<and>
     current s + 1 = next_it s \<and> next_it s \<le> length xs \<and>
     (begin_unstable s \<noteq> length xs \<longrightarrow> begin_unstable s \<le> current s) \<and>
     (ord \<longrightarrow> sorted_prefix C (length xs) s \<and> merges_ok C (calls s))"

text \<open>The state after a run has been dispatched (lines 137 and 171).\<close>

definition run_end_inv :: "bool \<Rightarrow> 'a compare \<Rightarrow> 'a list \<Rightarrow> 'a scan \<Rightarrow> bool" where
  "run_end_inv ord C xs s \<longleftrightarrow>
     length (seq s) = length xs \<and> mset (seq s) = mset xs \<and>
     current s + 1 = next_it s \<and> next_it s \<le> length xs \<and>
     (begin_unstable s \<noteq> length xs \<longrightarrow> begin_unstable s < next_it s) \<and>
     (ord \<longrightarrow>
        ordered C (take (if begin_unstable s \<noteq> length xs then begin_unstable s else next_it s)
                     (seq s)) \<and>
        merges_ok C (calls s))"

text \<open>
  The states in which the main loop starts to detect a run, while \<open>vergesort\<close> sorts
  \<open>xs\<close>: the state built by lines 93-102, and every state reached from it through a
  dispatched run that did not end the loop.  The flag tells whether the run to detect
  is a decreasing one (line 106) or an increasing one (line 142).
\<close>

inductive run_start ::
  "('a compare \<Rightarrow> 'a list \<Rightarrow> 'a list) \<Rightarrow> 'a compare \<Rightarrow> 'a list \<Rightarrow> bool \<Rightarrow> 'a scan \<Rightarrow> bool"
  for sub :: "'a compare \<Rightarrow> 'a list \<Rightarrow> 'a list" and C :: "'a compare" and xs :: "'a list" where
  enter: "\<not> int (length xs) < 80 \<Longrightarrow> unstable_limit (int (length xs)) = Some limit \<Longrightarrow>
          initial_scan C xs = Some s \<Longrightarrow> run_start sub C xs True s"
| after_decreasing:
    "run_start sub C xs True s \<Longrightarrow> unstable_limit (int (length xs)) = Some limit \<Longrightarrow>
     decreasing_run sub C limit (length xs) s = Some s1 \<Longrightarrow> next_it s1 \<noteq> length xs \<Longrightarrow>
     run_start sub C xs False (advance s1)"
| after_increasing:
    "run_start sub C xs False s \<Longrightarrow> unstable_limit (int (length xs)) = Some limit \<Longrightarrow>
     increasing_run sub C limit (length xs) s = Some s2 \<Longrightarrow> next_it s2 \<noteq> length xs \<Longrightarrow>
     run_start sub C xs True (advance s2)"

code_pred (modes: i \<Rightarrow> i \<Rightarrow> i \<Rightarrow> i \<Rightarrow> o \<Rightarrow> bool) run_start .

text \<open>
  An insertion sort under a comparator: one sub-sort that meets \<open>sub_sort_contract\<close>,
  used where a concrete sub-sort is needed.
\<close>

fun insert_by :: "'a compare \<Rightarrow> 'a \<Rightarrow> 'a list \<Rightarrow> 'a list" where
  "insert_by C x [] = [x]"
| "insert_by C x (y # ys) = (if C x y then x # y # ys else y # insert_by C x ys)"

definition insertion_sort :: "'a compare \<Rightarrow> 'a list \<Rightarrow> 'a list" where
  "insertion_sort C xs = foldr (insert_by C) xs []"


text \<open>
  A comparator with ties between different elements: pairs ranked by their first
  component alone.
\<close>

definition by_key :: "(nat \<times> nat) compare" where
  "by_key a b \<longleftrightarrow> fst a < fst b"

section \<open>Strict weak orderings and the stable merge\<close>

lemma swo_irrefl: "strict_weak_order C \<Longrightarrow> \<not> C a a"
  by (simp add: strict_weak_order_def)

lemma swo_trans: "strict_weak_order C \<Longrightarrow> C a b \<Longrightarrow> C b c \<Longrightarrow> C a c"
  unfolding strict_weak_order_def by blast

lemma swo_asym: "strict_weak_order C \<Longrightarrow> C a b \<Longrightarrow> \<not> C b a"
  using swo_irrefl swo_trans by metis

lemma swo_incomp:
  "strict_weak_order C \<Longrightarrow> \<not> C a b \<Longrightarrow> \<not> C b a \<Longrightarrow> \<not> C b c \<Longrightarrow> \<not> C c b \<Longrightarrow> \<not> C c a"
  unfolding strict_weak_order_def by blast

lemma swo_not_trans:
  assumes "strict_weak_order C" "\<not> C b a" "\<not> C c b"
  shows "\<not> C c a"
proof
  assume ca: "C c a"
  have nab: "\<not> C a b" using assms(1,3) ca swo_trans by metis
  have nbc: "\<not> C b c" using assms(1,2) ca swo_trans by metis
  from swo_incomp [OF assms(1) nab assms(2) nbc assms(3)] ca show False by simp
qed

lemma transp_not_before: "strict_weak_order C \<Longrightarrow> transp (\<lambda>a b. \<not> C b a)"
  by (rule transpI) (rule swo_not_trans)

lemma transp_not_after: "strict_weak_order C \<Longrightarrow> transp (\<lambda>a b. \<not> C a b)"
  by (rule transpI) (metis swo_not_trans)

lemma ordered_sorted_wrt:
  "strict_weak_order C \<Longrightarrow> ordered C xs \<longleftrightarrow> sorted_wrt (\<lambda>a b. \<not> C b a) xs"
  unfolding ordered_def by (rule successively_conv_sorted_wrt) (rule transp_not_before)

lemma ordered_nth:
  "ordered C xs \<longleftrightarrow> (\<forall>i. Suc i < length xs \<longrightarrow> \<not> C (xs ! Suc i) (xs ! i))"
  by (simp add: ordered_def successively_conv_nth)

lemma mset_merge: "mset (merge C xs ys) = mset xs + mset ys"
  by (induction C xs ys rule: merge.induct) simp_all

lemma set_merge: "set (merge C xs ys) = set xs \<union> set ys"
  by (induction C xs ys rule: merge.induct) auto

lemma length_merge: "length (merge C xs ys) = length xs + length ys"
  by (induction C xs ys rule: merge.induct) simp_all

lemma sorted_wrt_merge:
  "strict_weak_order C \<Longrightarrow> sorted_wrt (\<lambda>a b. \<not> C b a) xs \<Longrightarrow>
   sorted_wrt (\<lambda>a b. \<not> C b a) ys \<Longrightarrow> sorted_wrt (\<lambda>a b. \<not> C b a) (merge C xs ys)"
proof (induction C xs ys rule: merge.induct)
  case (3 C x xs y ys)
  note assms = "3.prems"(1)
  note xs = "3.prems"(2)
  note ys = "3.prems"(3)
  show ?case
  proof (cases "C y x")
    case True
    have "\<not> C z y" if "z \<in> set (x # xs)" for z
    proof -
      have "\<not> C z x" using that xs swo_irrefl [OF assms] by auto
      then show ?thesis using True swo_trans [OF assms] by blast
    qed
    moreover have "\<not> C z y" if "z \<in> set ys" for z
      using that ys by auto
    ultimately show ?thesis using True 3 by (simp add: set_merge) blast
  next
    case False
    have "\<not> C z x" if "z \<in> set (y # ys)" for z
    proof -
      have "\<not> C z y" using that ys swo_irrefl [OF assms] by auto
      then show ?thesis using False swo_not_trans [OF assms] by blast
    qed
    moreover have "\<not> C z x" if "z \<in> set xs" for z
      using that xs by auto
    ultimately show ?thesis using False 3 by (simp add: set_merge) blast
  qed
qed simp_all

lemma ordered_merge:
  "strict_weak_order C \<Longrightarrow> ordered C xs \<Longrightarrow> ordered C ys \<Longrightarrow> ordered C (merge C xs ys)"
  by (simp add: ordered_sorted_wrt sorted_wrt_merge)

lemma merge_Nil2: "merge C xs [] = xs"
  by (cases xs) simp_all

lemma merge_no_move:
  "\<forall>x\<in>set xs. \<forall>y\<in>set ys. \<not> C y x \<Longrightarrow> merge C xs ys = xs @ ys"
  by (induction C xs ys rule: merge.induct) simp_all

section \<open>Ranges of the sequence\<close>

lemma take_subrange_drop: "b \<le> e \<Longrightarrow> e \<le> length xs \<Longrightarrow> take b xs @ subrange b e xs @ drop e xs = xs"
  unfolding subrange_def
  by (metis append_take_drop_id drop_drop le_add_diff_inverse2 add.commute)

lemma subrange_app_mid: "length P = b \<Longrightarrow> b + length M = e \<Longrightarrow> subrange b e (P @ M @ S) = M"
  by (auto simp: subrange_def)

lemma subrange_app_fst: "length P = e \<Longrightarrow> subrange 0 e (P @ S) = P"
  by (auto simp: subrange_def)

lemma subrange_0: "subrange 0 e xs = take e xs"
  by (simp add: subrange_def)

lemma length_subrange: "e \<le> length xs \<Longrightarrow> length (subrange b e xs) = e - b"
  by (simp add: subrange_def)

lemma subrange_nth: "b + i < e \<Longrightarrow> e \<le> length xs \<Longrightarrow> subrange b e xs ! i = xs ! (b + i)"
  by (simp add: subrange_def)

lemma on_range_app:
  "length P = b \<Longrightarrow> b + length M = e \<Longrightarrow> on_range b e f (P @ M @ S) = P @ f M @ S"
  by (auto simp: on_range_def subrange_def)

lemma pdqsort_app:
  "seq m = P @ M @ S \<Longrightarrow> length P = b \<Longrightarrow> b + length M = e \<Longrightarrow>
   pdqsort sub b e C m =
     Some (m\<lparr>calls := calls m @ [(Pdqsort b e, seq m)], seq := P @ sub C M @ S\<rparr>)"
  by (auto simp: pdqsort_def log_call_def on_range_app)

lemma reverse_app:
  "seq m = P @ M @ S \<Longrightarrow> length P = b \<Longrightarrow> b + length M = e \<Longrightarrow>
   reverse b e m =
     Some (m\<lparr>calls := calls m @ [(Reverse b e, seq m)], seq := P @ rev M @ S\<rparr>)"
  by (auto simp: reverse_def log_call_def on_range_app)

lemma inplace_merge_app:
  "seq m = P @ X @ Y @ S \<Longrightarrow> length P = f \<Longrightarrow> f + length X = mid \<Longrightarrow> mid + length Y = l \<Longrightarrow>
   inplace_merge f mid l C m =
     Some (m\<lparr>calls := calls m @ [(Inplace_merge f mid l, seq m)], seq := P @ merge C X Y @ S\<rparr>)"
  by (auto simp: inplace_merge_def log_call_def subrange_def)

lemma inplace_merge3_app:
  assumes "seq m = P @ X @ Y @ Z @ S" "length P = f" "f + length X = m1"
    "m1 + length Y = m2" "m2 + length Z = l"
  shows "inplace_merge3 f m1 m2 l C m =
     Some (m\<lparr>calls := calls m @ (Inplace_merge3 f m1 m2 l, seq m) #
                 (if length X < length Z
                  then [(Inplace_merge f m1 m2, seq m),
                        (Inplace_merge f m2 l, P @ merge C X Y @ Z @ S)]
                  else [(Inplace_merge m1 m2 l, seq m),
                        (Inplace_merge f m1 l, P @ X @ merge C Y Z @ S)]),
             seq := P @ (if length X < length Z then merge C (merge C X Y) Z
                         else merge C X (merge C Y Z)) @ S\<rparr>)"
proof -
  let ?m0 = "log_call (Inplace_merge3 f m1 m2 l) m"
  have seq0: "seq ?m0 = seq m" and calls0: "calls ?m0 = calls m @ [(Inplace_merge3 f m1 m2 l, seq m)]"
    by (simp_all add: log_call_def)
  have cond: "int m1 - int f < int l - int m2 \<longleftrightarrow> length X < length Z"
    using assms by auto
  show ?thesis
  proof (cases "length X < length Z")
    case True
    have a: "seq ?m0 = P @ X @ Y @ (Z @ S)" using assms(1) seq0 by simp
    note s1 = inplace_merge_app [OF a assms(2,3,4), of C]
    let ?m1 = "?m0\<lparr>calls := calls ?m0 @ [(Inplace_merge f m1 m2, seq ?m0)],
                    seq := P @ merge C X Y @ Z @ S\<rparr>"
    have b: "seq ?m1 = P @ merge C X Y @ Z @ S" by simp
    have "f + length (merge C X Y) = m2" using assms by (simp add: length_merge)
    note s2 = inplace_merge_app [OF b assms(2) this assms(5), of C]
    show ?thesis
      unfolding inplace_merge3_def Let_def using True cond s1 s2
      by (simp add: log_call_def)
  next
    case False
    have a: "seq ?m0 = (P @ X) @ Y @ Z @ S" using assms(1) seq0 by simp
    have "length (P @ X) = m1" using assms by simp
    note s1 = inplace_merge_app [OF a this assms(4,5), of C]
    let ?m1 = "?m0\<lparr>calls := calls ?m0 @ [(Inplace_merge m1 m2 l, seq ?m0)],
                    seq := (P @ X) @ merge C Y Z @ S\<rparr>"
    have b: "seq ?m1 = P @ X @ merge C Y Z @ S" by simp
    have "m1 + length (merge C Y Z) = l" using assms by (simp add: length_merge)
    note s2 = inplace_merge_app [OF b assms(2,3) this, of C]
    show ?thesis
      unfolding inplace_merge3_def Let_def using False cond s1 s2
      by (simp add: log_call_def)
  qed
qed

lemma subrange_split:
  "a \<le> b \<Longrightarrow> b \<le> c \<Longrightarrow> subrange a c xs = subrange a b xs @ subrange b c xs"
proof -
  assume ab: "a \<le> b" and bc: "b \<le> c"
  have "c - a = (b - a) + (c - b)" using ab bc by simp
  then have "take (c - a) (drop a xs) = take (b - a) (drop a xs) @ take (c - b) (drop (b - a) (drop a xs))"
    by (simp only: take_add)
  moreover have "drop (b - a) (drop a xs) = drop b xs" using ab by simp
  ultimately show ?thesis by (simp add: subrange_def)
qed

lemma split_range:
  "b \<le> e \<Longrightarrow> e \<le> length xs \<Longrightarrow> xs = take b xs @ subrange b e xs @ drop e xs"
  using take_subrange_drop [of b e xs] by simp

lemma swo_less: "strict_weak_order ((<) :: ('a::linorder) compare)"
  by (auto simp: strict_weak_order_def)

lemma ordered_merge3:
  "strict_weak_order C \<Longrightarrow> ordered C X \<Longrightarrow> ordered C Y \<Longrightarrow> ordered C Z \<Longrightarrow>
   ordered C (if length X < length Z then merge C (merge C X Y) Z else merge C X (merge C Y Z))"
  by (simp add: ordered_merge)


section \<open>The scanning loops\<close>

lemma scan_reset: "s\<lparr>current := current s, next_it := next_it s\<rparr> = (s :: 'a scan)"
  by simp

lemma decreasing_range_result:
  "current s + 1 = next_it s \<Longrightarrow> next_it s \<le> n \<Longrightarrow> length (seq s) = n \<Longrightarrow>
   \<exists>k. next_it s \<le> k \<and> k \<le> n \<and>
       decreasing_range C n s = Some (s\<lparr>current := k - 1, next_it := k\<rparr>) \<and>
       (\<forall>i. next_it s \<le> i \<and> i < k \<longrightarrow> \<not> C (seq s ! (i - 1)) (seq s ! i)) \<and>
       (k \<noteq> n \<longrightarrow> C (seq s ! (k - 1)) (seq s ! k))"
proof (induction "n - next_it s" arbitrary: s)
  case 0
  then have e: "next_it s = n" by simp
  have "decreasing_range C n s = Some s"
    by (subst decreasing_range.simps) (simp add: e)
  then have "decreasing_range C n s = Some (s\<lparr>current := n - 1, next_it := n\<rparr>)"
    using e "0.prems"(1) by (metis scan_reset add_diff_cancel_right')
  then show ?case using e by (intro exI [of _ n]) auto
next
  case (Suc d)
  then have lt: "next_it s < n" by simp
  have cur: "current s < n" using Suc.prems(1) lt by simp
  have dn: "deref (seq s) (next_it s) = Some (seq s ! next_it s)"
    using lt Suc.prems(3) by (simp add: deref_def)
  have dc: "deref (seq s) (current s) = Some (seq s ! current s)"
    using cur Suc.prems(3) by (simp add: deref_def)
  have c1: "current s = next_it s - 1" using Suc.prems(1) by simp
  show ?case
  proof (cases "C (seq s ! current s) (seq s ! next_it s)")
    case True
    have "decreasing_range C n s = Some s"
      by (subst decreasing_range.simps) (simp add: dn dc True)
    then have "decreasing_range C n s = Some (s\<lparr>current := next_it s - 1, next_it := next_it s\<rparr>)"
      using c1 by (metis scan_reset)
    then show ?thesis using True lt c1 by (intro exI [of _ "next_it s"]) auto
  next
    case False
    let ?s = "advance s"
    have a1: "d = n - next_it ?s" using Suc.hyps(2) by (simp add: advance_def)
    have a2: "current ?s + 1 = next_it ?s" using Suc.prems(1) by (simp add: advance_def)
    have a3: "next_it ?s \<le> n" using lt by (simp add: advance_def)
    have a4: "length (seq ?s) = n" using Suc.prems(3) by (simp add: advance_def)
    from Suc.hyps(1) [OF a1 a2 a3 a4] obtain k where
      k: "next_it ?s \<le> k" "k \<le> n"
      "decreasing_range C n ?s = Some (?s\<lparr>current := k - 1, next_it := k\<rparr>)"
      "\<forall>i. next_it ?s \<le> i \<and> i < k \<longrightarrow> \<not> C (seq ?s ! (i - 1)) (seq ?s ! i)"
      "k \<noteq> n \<longrightarrow> C (seq ?s ! (k - 1)) (seq ?s ! k)"
      by blast
    have unf: "decreasing_range C n s = decreasing_range C n ?s"
      by (subst decreasing_range.simps) (use lt in \<open>simp add: dn dc False\<close>)
    have res: "decreasing_range C n s = Some (s\<lparr>current := k - 1, next_it := k\<rparr>)"
      using unf k(3) by (simp add: advance_def)
    have "\<not> C (seq s ! (i - 1)) (seq s ! i)" if "next_it s \<le> i" "i < k" for i
    proof (cases "i = next_it s")
      case True
      then show ?thesis using False c1 by simp
    next
      case False
      then have "next_it ?s \<le> i" using that(1) by (simp add: advance_def)
      then show ?thesis using k(4) that(2) by (simp add: advance_def)
    qed
    moreover have "next_it s \<le> k" using k(1) by (simp add: advance_def)
    moreover have "k \<noteq> n \<longrightarrow> C (seq s ! (k - 1)) (seq s ! k)"
      using k(5) by (simp add: advance_def)
    ultimately show ?thesis using res k(2) by blast
  qed
qed


lemma increasing_range_result:
  "current s + 1 = next_it s \<Longrightarrow> next_it s \<le> n \<Longrightarrow> length (seq s) = n \<Longrightarrow>
   \<exists>k. next_it s \<le> k \<and> k \<le> n \<and>
       increasing_range C n s = Some (s\<lparr>current := k - 1, next_it := k\<rparr>) \<and>
       (\<forall>i. next_it s \<le> i \<and> i < k \<longrightarrow> \<not> C (seq s ! i) (seq s ! (i - 1))) \<and>
       (k \<noteq> n \<longrightarrow> C (seq s ! k) (seq s ! (k - 1)))"
proof (induction "n - next_it s" arbitrary: s)
  case 0
  then have e: "next_it s = n" by simp
  have "increasing_range C n s = Some s"
    by (subst increasing_range.simps) (simp add: e)
  then have "increasing_range C n s = Some (s\<lparr>current := n - 1, next_it := n\<rparr>)"
    using e "0.prems"(1) by (metis scan_reset add_diff_cancel_right')
  then show ?case using e by (intro exI [of _ n]) auto
next
  case (Suc d)
  then have lt: "next_it s < n" by simp
  have cur: "current s < n" using Suc.prems(1) lt by simp
  have dn: "deref (seq s) (next_it s) = Some (seq s ! next_it s)"
    using lt Suc.prems(3) by (simp add: deref_def)
  have dc: "deref (seq s) (current s) = Some (seq s ! current s)"
    using cur Suc.prems(3) by (simp add: deref_def)
  have c1: "current s = next_it s - 1" using Suc.prems(1) by simp
  show ?case
  proof (cases "C (seq s ! next_it s) (seq s ! current s)")
    case True
    have "increasing_range C n s = Some s"
      by (subst increasing_range.simps) (simp add: dn dc True)
    then have "increasing_range C n s = Some (s\<lparr>current := next_it s - 1, next_it := next_it s\<rparr>)"
      using c1 by (metis scan_reset)
    then show ?thesis using True lt c1 by (intro exI [of _ "next_it s"]) auto
  next
    case False
    let ?s = "advance s"
    have a1: "d = n - next_it ?s" using Suc.hyps(2) by (simp add: advance_def)
    have a2: "current ?s + 1 = next_it ?s" using Suc.prems(1) by (simp add: advance_def)
    have a3: "next_it ?s \<le> n" using lt by (simp add: advance_def)
    have a4: "length (seq ?s) = n" using Suc.prems(3) by (simp add: advance_def)
    from Suc.hyps(1) [OF a1 a2 a3 a4] obtain k where
      k: "next_it ?s \<le> k" "k \<le> n"
      "increasing_range C n ?s = Some (?s\<lparr>current := k - 1, next_it := k\<rparr>)"
      "\<forall>i. next_it ?s \<le> i \<and> i < k \<longrightarrow> \<not> C (seq ?s ! i) (seq ?s ! (i - 1))"
      "k \<noteq> n \<longrightarrow> C (seq ?s ! k) (seq ?s ! (k - 1))"
      by blast
    have unf: "increasing_range C n s = increasing_range C n ?s"
      by (subst increasing_range.simps) (use lt in \<open>simp add: dn dc False\<close>)
    have res: "increasing_range C n s = Some (s\<lparr>current := k - 1, next_it := k\<rparr>)"
      using unf k(3) by (simp add: advance_def)
    have "\<not> C (seq s ! i) (seq s ! (i - 1))" if "next_it s \<le> i" "i < k" for i
    proof (cases "i = next_it s")
      case True
      then show ?thesis using False c1 by simp
    next
      case False
      then have "next_it ?s \<le> i" using that(1) by (simp add: advance_def)
      then show ?thesis using k(4) that(2) by (simp add: advance_def)
    qed
    moreover have "next_it s \<le> k" using k(1) by (simp add: advance_def)
    moreover have "k \<noteq> n \<longrightarrow> C (seq s ! k) (seq s ! (k - 1))"
      using k(5) by (simp add: advance_def)
    ultimately show ?thesis using res k(2) by blast
  qed
qed


lemma is_sorted_until_loop_result:
  "nx < n \<Longrightarrow> length xs = n \<Longrightarrow>
   \<exists>p. nx < p \<and> p \<le> n \<and> is_sorted_until_loop C xs n nx nx = Some p \<and>
       (\<forall>i. nx < i \<and> i < p \<longrightarrow> \<not> C (xs ! i) (xs ! (i - 1))) \<and>
       (p \<noteq> n \<longrightarrow> C (xs ! p) (xs ! (p - 1)))"
proof (induction "n - nx" arbitrary: nx)
  case 0
  then show ?case by simp
next
  case (Suc d)
  show ?case
  proof (cases "nx + 1 = n")
    case True
    have "is_sorted_until_loop C xs n nx nx = Some n"
      by (subst is_sorted_until_loop.simps) (use True in simp)
    then show ?thesis using True by (intro exI [of _ n]) auto
  next
    case False
    then have lt: "nx + 1 < n" using Suc.prems(1) by simp
    have d1: "deref xs (nx + 1) = Some (xs ! (nx + 1))"
      using lt Suc.prems(2) by (simp add: deref_def)
    have d2: "deref xs nx = Some (xs ! nx)"
      using lt Suc.prems(2) by (simp add: deref_def)
    show ?thesis
    proof (cases "C (xs ! (nx + 1)) (xs ! nx)")
      case True
      have "is_sorted_until_loop C xs n nx nx = Some (nx + 1)"
        by (subst is_sorted_until_loop.simps) (use False d1 d2 True in simp)
      then show ?thesis using True lt by (intro exI [of _ "nx + 1"]) auto
    next
      case nC: False
      have a1: "d = n - (nx + 1)" using Suc.hyps(2) by simp
      from Suc.hyps(1) [OF a1 lt Suc.prems(2)] obtain p where
        p: "nx + 1 < p" "p \<le> n" "is_sorted_until_loop C xs n (nx + 1) (nx + 1) = Some p"
        "\<forall>i. nx + 1 < i \<and> i < p \<longrightarrow> \<not> C (xs ! i) (xs ! (i - 1))"
        "p \<noteq> n \<longrightarrow> C (xs ! p) (xs ! (p - 1))"
        by blast
      have unf: "is_sorted_until_loop C xs n nx nx = is_sorted_until_loop C xs n (nx + 1) (nx + 1)"
        by (subst is_sorted_until_loop.simps) (use False d1 d2 nC in simp)
      have "\<not> C (xs ! i) (xs ! (i - 1))" if "nx < i" "i < p" for i
      proof (cases "i = nx + 1")
        case True
        then show ?thesis using nC by simp
      next
        case False
        then have "nx + 1 < i" using that(1) by simp
        then show ?thesis using p(4) that(2) by simp
      qed
      moreover have "nx < p" using p(1) by simp
      ultimately show ?thesis using unf p(2,3,5) by auto
    qed
  qed
qed

lemma ordered_take_nth:
  "p \<le> length xs \<Longrightarrow>
   ordered C (take p xs) \<longleftrightarrow> (\<forall>i. 0 < i \<and> i < p \<longrightarrow> \<not> C (xs ! i) (xs ! (i - 1)))"
proof -
  assume p: "p \<le> length xs"
  have "ordered C (take p xs) \<longleftrightarrow> (\<forall>i. Suc i < p \<longrightarrow> \<not> C (xs ! Suc i) (xs ! i))"
    using p by (simp add: ordered_nth)
  also have "\<dots> \<longleftrightarrow> (\<forall>i. 0 < i \<and> i < p \<longrightarrow> \<not> C (xs ! i) (xs ! (i - 1)))"
  proof (intro iffI allI impI)
    fix i assume a: "\<forall>i. Suc i < p \<longrightarrow> \<not> C (xs ! Suc i) (xs ! i)" and i: "0 < i \<and> i < p"
    then have "Suc (i - 1) < p" by simp
    with a have "\<not> C (xs ! Suc (i - 1)) (xs ! (i - 1))" by blast
    then show "\<not> C (xs ! i) (xs ! (i - 1))" using i by simp
  next
    fix i assume a: "\<forall>i. 0 < i \<and> i < p \<longrightarrow> \<not> C (xs ! i) (xs ! (i - 1))" and i: "Suc i < p"
    then have "\<not> C (xs ! Suc i) (xs ! (Suc i - 1))" by blast
    then show "\<not> C (xs ! Suc i) (xs ! i)" by simp
  qed
  finally show ?thesis .
qed

lemma is_sorted_until_result:
  "0 < length xs \<Longrightarrow>
   \<exists>p. 0 < p \<and> p \<le> length xs \<and> is_sorted_until 0 (length xs) C xs = Some p \<and>
       ordered C (take p xs) \<and> (p \<noteq> length xs \<longrightarrow> C (xs ! p) (xs ! (p - 1)))"
proof -
  assume n: "0 < length xs"
  from is_sorted_until_loop_result [OF n refl, of C] obtain p where
    p: "0 < p" "p \<le> length xs" "is_sorted_until_loop C xs (length xs) 0 0 = Some p"
    "\<forall>i. 0 < i \<and> i < p \<longrightarrow> \<not> C (xs ! i) (xs ! (i - 1))"
    "p \<noteq> length xs \<longrightarrow> C (xs ! p) (xs ! (p - 1))"
    by blast
  have "is_sorted_until 0 (length xs) C xs = Some p"
    using n p(3) by (simp add: is_sorted_until_def)
  moreover have "ordered C (take p xs)"
    using p(2,4) by (simp add: ordered_take_nth)
  ultimately show ?thesis using p(1,2,5) by blast
qed

section \<open>Dispatching a detected run\<close>

text \<open>The result of lines 106-135 and of lines 142-169, case by case.\<close>

lemma decreasing_run_long_pending:
  assumes scan: "decreasing_range C n s0 = Some (s0\<lparr>current := k - 1, next_it := k\<rparr>)"
    and dec: "seq s0 = A @ B @ R @ T"
    and lA: "length A = begin_unstable s0"
    and lB: "begin_unstable s0 + length B = current s0"
    and lR: "current s0 + length R = k"
    and long: "int k - int (current s0) > limit"
    and pend: "begin_unstable s0 \<noteq> n"
    and lsub: "length (sub C B) = length B"
  shows "decreasing_run sub C limit n s0 =
    Some (s0\<lparr>current := k - 1, next_it := k, begin_unstable := n,
             calls := calls s0 @
               [(Pdqsort (begin_unstable s0) (current s0), A @ B @ R @ T),
                (Reverse (current s0) k, A @ sub C B @ R @ T),
                (Inplace_merge3 0 (begin_unstable s0) (current s0) k, A @ sub C B @ rev R @ T)] @
               (if length A < length R
                then [(Inplace_merge 0 (begin_unstable s0) (current s0), A @ sub C B @ rev R @ T),
                      (Inplace_merge 0 (current s0) k, merge C A (sub C B) @ rev R @ T)]
                else [(Inplace_merge (begin_unstable s0) (current s0) k, A @ sub C B @ rev R @ T),
                      (Inplace_merge 0 (begin_unstable s0) k, A @ merge C (sub C B) (rev R) @ T)]),
             seq := (if length A < length R then merge C (merge C A (sub C B)) (rev R)
                     else merge C A (merge C (sub C B) (rev R))) @ T\<rparr>)"
proof -
  let ?bu = "begin_unstable s0" and ?br = "current s0"
  let ?s = "s0\<lparr>current := k - 1, next_it := k\<rparr>"
  have sq: "seq ?s = A @ B @ (R @ T)" using dec by simp
  note p1 = pdqsort_app [OF sq lA lB, of sub C]
  let ?s1 = "?s\<lparr>calls := calls ?s @ [(Pdqsort ?bu ?br, seq ?s)], seq := A @ sub C B @ R @ T\<rparr>"
  have sq1: "seq ?s1 = (A @ sub C B) @ R @ T" by simp
  have l1: "length (A @ sub C B) = ?br" using lA lB lsub by simp
  note p2 = reverse_app [OF sq1 l1 lR]
  let ?s2 = "?s1\<lparr>calls := calls ?s1 @ [(Reverse ?br k, seq ?s1)], seq := (A @ sub C B) @ rev R @ T\<rparr>"
  have sq2: "seq ?s2 = [] @ A @ sub C B @ rev R @ T" by simp
  have l2: "0 + length A = ?bu" using lA by simp
  have l3: "?bu + length (sub C B) = ?br" using lB lsub by simp
  have l4: "?br + length (rev R) = k" using lR by simp
  note p3 = inplace_merge3_app [OF sq2 _ l2 l3 l4, of C, simplified]
  show ?thesis
    unfolding decreasing_run_def Let_def
    using scan long pend p1 p2 p3 dec by simp
qed

lemma decreasing_run_long_fresh:
  assumes scan: "decreasing_range C n s0 = Some (s0\<lparr>current := k - 1, next_it := k\<rparr>)"
    and dec: "seq s0 = A @ R @ T"
    and lA: "length A = current s0"
    and lR: "current s0 + length R = k"
    and long: "int k - int (current s0) > limit"
    and fresh: "begin_unstable s0 = n"
  shows "decreasing_run sub C limit n s0 =
    Some (s0\<lparr>current := k - 1, next_it := k,
             calls := calls s0 @
               [(Reverse (current s0) k, A @ R @ T),
                (Inplace_merge 0 (current s0) k, A @ rev R @ T)],
             seq := merge C A (rev R) @ T\<rparr>)"
proof -
  let ?br = "current s0"
  let ?s = "s0\<lparr>current := k - 1, next_it := k\<rparr>"
  have sq: "seq ?s = A @ R @ T" using dec by simp
  note p1 = reverse_app [OF sq lA lR]
  let ?s1 = "?s\<lparr>calls := calls ?s @ [(Reverse ?br k, seq ?s)], seq := A @ rev R @ T\<rparr>"
  have sq1: "seq ?s1 = [] @ A @ rev R @ T" by simp
  have l2: "0 + length A = ?br" using lA by simp
  have l4: "?br + length (rev R) = k" using lR by simp
  note p2 = inplace_merge_app [OF sq1 _ l2 l4, of C, simplified]
  show ?thesis
    unfolding decreasing_run_def Let_def
    using scan long fresh p1 p2 dec by simp
qed

lemma decreasing_run_short:
  assumes scan: "decreasing_range C n s0 = Some (s0\<lparr>current := k - 1, next_it := k\<rparr>)"
    and short: "\<not> int k - int (current s0) > limit"
  shows "decreasing_run sub C limit n s0 =
    Some (s0\<lparr>current := k - 1, next_it := k,
             begin_unstable := (if begin_unstable s0 = n then current s0 else begin_unstable s0)\<rparr>)"
  unfolding decreasing_run_def Let_def using scan short by simp

lemma increasing_run_long_pending:
  assumes scan: "increasing_range C n s0 = Some (s0\<lparr>current := k - 1, next_it := k\<rparr>)"
    and dec: "seq s0 = A @ B @ R @ T"
    and lA: "length A = begin_unstable s0"
    and lB: "begin_unstable s0 + length B = current s0"
    and lR: "current s0 + length R = k"
    and long: "int k - int (current s0) > limit"
    and pend: "begin_unstable s0 \<noteq> n"
    and lsub: "length (sub C B) = length B"
  shows "increasing_run sub C limit n s0 =
    Some (s0\<lparr>current := k - 1, next_it := k, begin_unstable := n,
             calls := calls s0 @
               [(Pdqsort (begin_unstable s0) (current s0), A @ B @ R @ T),
                (Inplace_merge3 0 (begin_unstable s0) (current s0) k, A @ sub C B @ R @ T)] @
               (if length A < length R
                then [(Inplace_merge 0 (begin_unstable s0) (current s0), A @ sub C B @ R @ T),
                      (Inplace_merge 0 (current s0) k, merge C A (sub C B) @ R @ T)]
                else [(Inplace_merge (begin_unstable s0) (current s0) k, A @ sub C B @ R @ T),
                      (Inplace_merge 0 (begin_unstable s0) k, A @ merge C (sub C B) R @ T)]),
             seq := (if length A < length R then merge C (merge C A (sub C B)) R
                     else merge C A (merge C (sub C B) R)) @ T\<rparr>)"
proof -
  let ?bu = "begin_unstable s0" and ?br = "current s0"
  let ?s = "s0\<lparr>current := k - 1, next_it := k\<rparr>"
  have sq: "seq ?s = A @ B @ (R @ T)" using dec by simp
  note p1 = pdqsort_app [OF sq lA lB, of sub C]
  let ?s1 = "?s\<lparr>calls := calls ?s @ [(Pdqsort ?bu ?br, seq ?s)], seq := A @ sub C B @ R @ T\<rparr>"
  have sq2: "seq ?s1 = [] @ A @ sub C B @ R @ T" by simp
  have l2: "0 + length A = ?bu" using lA by simp
  have l3: "?bu + length (sub C B) = ?br" using lB lsub by simp
  note p3 = inplace_merge3_app [OF sq2 _ l2 l3 lR, of C, simplified]
  show ?thesis
    unfolding increasing_run_def Let_def
    using scan long pend p1 p3 dec by simp
qed

lemma increasing_run_long_fresh:
  assumes scan: "increasing_range C n s0 = Some (s0\<lparr>current := k - 1, next_it := k\<rparr>)"
    and dec: "seq s0 = A @ R @ T"
    and lA: "length A = current s0"
    and lR: "current s0 + length R = k"
    and long: "int k - int (current s0) > limit"
    and fresh: "begin_unstable s0 = n"
  shows "increasing_run sub C limit n s0 =
    Some (s0\<lparr>current := k - 1, next_it := k,
             calls := calls s0 @ [(Inplace_merge 0 (current s0) k, A @ R @ T)],
             seq := merge C A R @ T\<rparr>)"
proof -
  let ?br = "current s0"
  let ?s = "s0\<lparr>current := k - 1, next_it := k\<rparr>"
  have sq1: "seq ?s = [] @ A @ R @ T" using dec by simp
  have l2: "0 + length A = ?br" using lA by simp
  note p2 = inplace_merge_app [OF sq1 _ l2 lR, of C, simplified]
  show ?thesis
    unfolding increasing_run_def Let_def
    using scan long fresh p2 dec by simp
qed

lemma increasing_run_short:
  assumes scan: "increasing_range C n s0 = Some (s0\<lparr>current := k - 1, next_it := k\<rparr>)"
    and short: "\<not> int k - int (current s0) > limit"
  shows "increasing_run sub C limit n s0 =
    Some (s0\<lparr>current := k - 1, next_it := k,
             begin_unstable := (if begin_unstable s0 = n then current s0 else begin_unstable s0)\<rparr>)"
  unfolding increasing_run_def Let_def using scan short by simp

section \<open>The operands of the logged merges\<close>

lemma into_prefix_mono: "into_prefix lg e ys \<Longrightarrow> into_prefix (lg @ new) e ys"
  by (cases e) auto

lemma merges_ok_Nil: "merges_ok C []"
  by (simp add: merges_ok_def)

lemma merges_ok_snoc:
  "merges_ok C lg \<Longrightarrow> sorted_operands C e ys \<Longrightarrow> into_prefix (lg @ [(e, ys)]) e ys \<Longrightarrow>
   merges_ok C (lg @ [(e, ys)])"
  unfolding merges_ok_def using into_prefix_mono by fastforce

lemma merges_ok_pdqsort: "merges_ok C lg \<Longrightarrow> merges_ok C (lg @ [(Pdqsort b e, ys)])"
  by (rule merges_ok_snoc) simp_all

lemma merges_ok_reverse: "merges_ok C lg \<Longrightarrow> merges_ok C (lg @ [(Reverse b e, ys)])"
  by (rule merges_ok_snoc) simp_all

lemma merges_ok_merge:
  "merges_ok C lg \<Longrightarrow> ordered C X \<Longrightarrow> ordered C Y \<Longrightarrow> length X = m \<Longrightarrow> m + length Y = l \<Longrightarrow>
   merges_ok C (lg @ [(Inplace_merge 0 m l, X @ Y @ S)])"
proof (rule merges_ok_snoc)
  assume "ordered C X" "ordered C Y" "length X = m" "m + length Y = l"
  then show "sorted_operands C (Inplace_merge 0 m l) (X @ Y @ S)"
    using subrange_app_mid [of "[]" 0 X m "Y @ S"] subrange_app_mid [of X m Y l S] by simp
qed simp_all

lemma merges_ok_merge3:
  assumes ok: "merges_ok C lg" and o: "strict_weak_order C" "ordered C X" "ordered C Y" "ordered C Z"
    and l: "length X = m1" "m1 + length Y = m2" "m2 + length Z = l"
  shows "merges_ok C (lg @ [(Inplace_merge3 0 m1 m2 l, X @ Y @ Z @ S)] @
           (if length X < length Z
            then [(Inplace_merge 0 m1 m2, X @ Y @ Z @ S),
                  (Inplace_merge 0 m2 l, merge C X Y @ Z @ S)]
            else [(Inplace_merge m1 m2 l, X @ Y @ Z @ S),
                  (Inplace_merge 0 m1 l, X @ merge C Y Z @ S)]))"
proof -
  let ?snap = "X @ Y @ Z @ S"
  have sX: "subrange 0 m1 ?snap = X" using subrange_app_mid [of "[]" 0 X m1 "Y @ Z @ S"] l by simp
  have sY: "subrange m1 m2 ?snap = Y" using subrange_app_mid [of X m1 Y m2 "Z @ S"] l by simp
  have sZ: "subrange m2 l ?snap = Z" using subrange_app_mid [of "X @ Y" m2 Z l S] l by simp
  have so3: "sorted_operands C (Inplace_merge3 0 m1 m2 l) ?snap"
    using sX sY sZ o by simp
  have ok3: "merges_ok C (lg @ [(Inplace_merge3 0 m1 m2 l, ?snap)])"
    using ok so3 by (rule merges_ok_snoc) simp
  show ?thesis
  proof (cases "length X < length Z")
    case True
    have a: "merges_ok C ((lg @ [(Inplace_merge3 0 m1 m2 l, ?snap)]) @ [(Inplace_merge 0 m1 m2, X @ Y @ (Z @ S))])"
      using ok3 o(2,3) l(1,2) by (rule merges_ok_merge)
    have "merges_ok C (((lg @ [(Inplace_merge3 0 m1 m2 l, ?snap)]) @ [(Inplace_merge 0 m1 m2, X @ Y @ (Z @ S))])
            @ [(Inplace_merge 0 m2 l, merge C X Y @ Z @ S)])"
      using a
    proof (rule merges_ok_merge)
      show "ordered C (merge C X Y)" using o by (simp add: ordered_merge)
      show "ordered C Z" by fact
      show "length (merge C X Y) = m2" using l by (simp add: length_merge)
      show "m2 + length Z = l" by fact
    qed
    then show ?thesis using True by simp
  next
    case False
    have so: "sorted_operands C (Inplace_merge m1 m2 l) ?snap" using sY sZ o by simp
    have a: "merges_ok C ((lg @ [(Inplace_merge3 0 m1 m2 l, ?snap)]) @ [(Inplace_merge m1 m2 l, ?snap)])"
      using ok3 so by (rule merges_ok_snoc) simp
    have "merges_ok C (((lg @ [(Inplace_merge3 0 m1 m2 l, ?snap)]) @ [(Inplace_merge m1 m2 l, ?snap)])
            @ [(Inplace_merge 0 m1 l, X @ merge C Y Z @ S)])"
      using a
    proof (rule merges_ok_merge)
      show "ordered C X" by fact
      show "ordered C (merge C Y Z)" using o by (simp add: ordered_merge)
      show "length X = m1" by fact
      show "m1 + length (merge C Y Z) = l" using l by (simp add: length_merge)
    qed
    then show ?thesis using False by simp
  qed
qed

section \<open>The invariant after a dispatched run\<close>

lemma end_inv_short:
  assumes inv: "run_start_inv ord C xs s0" and k: "next_it s0 \<le> k" "k \<le> length xs"
  shows "run_end_inv ord C xs
           (s0\<lparr>current := k - 1, next_it := k,
               begin_unstable := (if begin_unstable s0 = length xs then current s0
                                  else begin_unstable s0)\<rparr>)"
  using assms unfolding run_start_inv_def run_end_inv_def sorted_prefix_def
  by (auto split: if_splits)

lemma end_inv_fresh:
  assumes inv: "run_start_inv ord C xs s0"
    and fresh: "begin_unstable s0 = length xs"
    and dec: "seq s0 = A @ R @ T" and lA: "length A = current s0"
    and lR: "current s0 + length R = k"
    and k: "next_it s0 \<le> k"
    and mR: "mset R' = mset R" and oR: "ord \<Longrightarrow> ordered C R'"
    and cs: "ord \<Longrightarrow> merges_ok C cs0"
    and sw: "ord \<Longrightarrow> strict_weak_order C"
  shows "run_end_inv ord C xs
           (s0\<lparr>current := k - 1, next_it := k,
               calls := cs0 @ [(Inplace_merge 0 (current s0) k, A @ R' @ T)],
               seq := merge C A R' @ T\<rparr>)"
proof -
  have len: "length R' = length R" using mR by (rule mset_eq_length)
  have "length (seq s0) = length xs" "mset (seq s0) = mset xs"
    using inv by (simp_all add: run_start_inv_def)
  then have n: "length xs = length A + length R + length T"
    and ms: "mset xs = mset A + mset R + mset T"
    using dec by (simp_all add: ac_simps)
  have cur: "current s0 + 1 = next_it s0" using inv by (simp add: run_start_inv_def)
  have lM: "length (merge C A R') = k" using lA lR len by (simp add: length_merge)
  have "ordered C (merge C A R') \<and> merges_ok C (cs0 @ [(Inplace_merge 0 (current s0) k, A @ R' @ T)])"
    if ord: ord
  proof -
    note swo = sw [OF ord]
    have "ordered C (take (current s0) (seq s0))"
      using inv fresh ord by (simp add: run_start_inv_def sorted_prefix_def)
    then have oA: "ordered C A" using dec lA by simp
    have "k = current s0 + length R'" using lR len by simp
    then have "merges_ok C (cs0 @ [(Inplace_merge 0 (current s0) k, A @ R' @ T)])"
      using merges_ok_merge [OF cs [OF ord] oA oR [OF ord] lA, of k T] by simp
    then show ?thesis using swo oA oR [OF ord] by (simp add: ordered_merge)
  qed
  then show ?thesis
    unfolding run_end_inv_def using n ms cur k lM lA lR len fresh
    by (simp add: length_merge mset_merge mR)
qed

lemma end_inv_pending:
  assumes inv: "run_start_inv ord C xs s0"
    and pend: "begin_unstable s0 \<noteq> length xs"
    and dec: "seq s0 = A @ B @ R @ T" and lA: "length A = begin_unstable s0"
    and lB: "begin_unstable s0 + length B = current s0"
    and lR: "current s0 + length R = k"
    and k: "next_it s0 \<le> k"
    and mB: "mset B' = mset B" and oB: "ord \<Longrightarrow> ordered C B'"
    and mR: "mset R' = mset R" and oR: "ord \<Longrightarrow> ordered C R'"
    and cs: "ord \<Longrightarrow> merges_ok C cs0"
    and sw: "ord \<Longrightarrow> strict_weak_order C"
  shows "run_end_inv ord C xs
           (s0\<lparr>current := k - 1, next_it := k, begin_unstable := length xs,
               calls := cs0 @
                 [(Inplace_merge3 0 (begin_unstable s0) (current s0) k, A @ B' @ R' @ T)] @
                 (if length A < length R'
                  then [(Inplace_merge 0 (begin_unstable s0) (current s0), A @ B' @ R' @ T),
                        (Inplace_merge 0 (current s0) k, merge C A B' @ R' @ T)]
                  else [(Inplace_merge (begin_unstable s0) (current s0) k, A @ B' @ R' @ T),
                        (Inplace_merge 0 (begin_unstable s0) k, A @ merge C B' R' @ T)]),
               seq := (if length A < length R' then merge C (merge C A B') R'
                       else merge C A (merge C B' R')) @ T\<rparr>)"
proof -
  let ?M = "if length A < length R' then merge C (merge C A B') R' else merge C A (merge C B' R')"
  have lenR: "length R' = length R" using mR by (rule mset_eq_length)
  have lenB: "length B' = length B" using mB by (rule mset_eq_length)
  have "length (seq s0) = length xs" "mset (seq s0) = mset xs"
    using inv by (simp_all add: run_start_inv_def)
  then have n: "length xs = length A + length B + length R + length T"
    and ms: "mset xs = mset A + mset B + mset R + mset T"
    using dec by (simp_all add: ac_simps)
  have kk: "k = length A + length B + length R" using lA lB lR by simp
  have cur: "current s0 + 1 = next_it s0" using inv by (simp add: run_start_inv_def)
  have lM: "length ?M = k" using lA lB lR lenR lenB by (simp add: length_merge)
  have mM: "mset ?M = mset A + mset B + mset R" by (simp add: mset_merge mB mR)
  have "ordered C ?M \<and> merges_ok C (cs0 @
                 [(Inplace_merge3 0 (begin_unstable s0) (current s0) k, A @ B' @ R' @ T)] @
                 (if length A < length R'
                  then [(Inplace_merge 0 (begin_unstable s0) (current s0), A @ B' @ R' @ T),
                        (Inplace_merge 0 (current s0) k, merge C A B' @ R' @ T)]
                  else [(Inplace_merge (begin_unstable s0) (current s0) k, A @ B' @ R' @ T),
                        (Inplace_merge 0 (begin_unstable s0) k, A @ merge C B' R' @ T)]))"
    if ord: ord
  proof -
    note swo = sw [OF ord]
    have "ordered C (take (begin_unstable s0) (seq s0))"
      using inv pend ord by (simp add: run_start_inv_def sorted_prefix_def)
    then have oA: "ordered C A" using dec lA by simp
    have l2: "begin_unstable s0 + length B' = current s0" using lB lenB by simp
    have l3: "current s0 + length R' = k" using lR lenR by simp
    note m3 = merges_ok_merge3 [OF cs [OF ord] swo oA oB [OF ord] oR [OF ord] lA l2 l3, of T]
    have "ordered C ?M" using swo oA oB [OF ord] oR [OF ord] by (rule ordered_merge3)
    then show ?thesis using m3 by simp
  qed
  then show ?thesis
    unfolding run_end_inv_def using n ms cur k lM mM kk by simp
qed

section \<open>A detected run keeps the invariant\<close>

lemma split_range3:
  assumes "a \<le> b" "b \<le> c" "c \<le> length xs"
  shows "xs = take a xs @ subrange a b xs @ subrange b c xs @ drop c xs"
proof -
  have "subrange a c xs = subrange a b xs @ subrange b c xs"
    using assms by (intro subrange_split)
  then show ?thesis using split_range [of a c xs] assms by simp
qed

lemma successively_subrange:
  assumes "k \<le> length xs" and "\<forall>i. b < i \<and> i < k \<longrightarrow> P (xs ! (i - 1)) (xs ! i)"
  shows "successively P (subrange b k xs)"
  unfolding successively_conv_nth
proof (intro allI impI)
  fix i assume "Suc i < length (subrange b k xs)"
  then have i: "b + Suc i < k" using assms(1) by (simp add: length_subrange)
  have "b < b + Suc i \<and> b + Suc i < k" using i by simp
  with assms(2) have "P (xs ! (b + Suc i - 1)) (xs ! (b + Suc i))" by blast
  then have "P (xs ! (b + i)) (xs ! (b + Suc i))" by simp
  moreover have "subrange b k xs ! i = xs ! (b + i)"
    using i assms(1) by (intro subrange_nth) simp_all
  moreover have "subrange b k xs ! Suc i = xs ! (b + Suc i)"
    using i assms(1) by (intro subrange_nth) simp_all
  ultimately show "P (subrange b k xs ! i) (subrange b k xs ! Suc i)" by simp
qed

lemma contract_mset: "sub_sort_permutes sub \<Longrightarrow> mset (sub C xs) = mset xs"
  by (simp add: sub_sort_permutes_def)

lemma contract_length: "sub_sort_permutes sub \<Longrightarrow> length (sub C xs) = length xs"
  using contract_mset mset_eq_length by blast

lemma contract_ordered: "sub_sort_orders sub \<Longrightarrow> strict_weak_order C \<Longrightarrow> ordered C (sub C xs)"
  by (simp add: sub_sort_orders_def)

lemma decreasing_run_inv:
  assumes con: "sub_sort_permutes sub" and so: "ord \<Longrightarrow> sub_sort_orders sub"
    and sw: "ord \<Longrightarrow> strict_weak_order C" and inv: "run_start_inv ord C xs s0"
  shows "\<exists>s1. decreasing_run sub C limit (length xs) s0 = Some s1 \<and>
              run_end_inv ord C xs s1 \<and> next_it s0 \<le> next_it s1"
proof -
  let ?n = "length xs" and ?bu = "begin_unstable s0" and ?br = "current s0"
  have cur: "?br + 1 = next_it s0" and nx: "next_it s0 \<le> ?n" and len: "length (seq s0) = ?n"
    and bu: "?bu \<noteq> ?n \<longrightarrow> ?bu \<le> ?br"
    using inv by (simp_all add: run_start_inv_def)
  from decreasing_range_result [OF cur nx len, of C] obtain k where
    k: "next_it s0 \<le> k" "k \<le> ?n"
    and scan: "decreasing_range C ?n s0 = Some (s0\<lparr>current := k - 1, next_it := k\<rparr>)"
    and run: "\<forall>i. next_it s0 \<le> i \<and> i < k \<longrightarrow> \<not> C (seq s0 ! (i - 1)) (seq s0 ! i)"
    by blast
  let ?R = "subrange ?br k (seq s0)" and ?T = "drop k (seq s0)"
  have brk: "?br \<le> k" using cur k(1) by simp
  have kl: "k \<le> length (seq s0)" using k(2) len by simp
  have lR: "?br + length ?R = k" using brk kl by (simp add: length_subrange)
  have "successively (\<lambda>a b. \<not> C a b) ?R"
    using kl run cur by (intro successively_subrange) auto
  then have oR: "ordered C (rev ?R)" by (simp add: ordered_def)
  have mR: "mset (rev ?R) = mset ?R" by simp
  have mok: "ord \<Longrightarrow> merges_ok C (calls s0)"
    using inv by (simp add: run_start_inv_def)
  show ?thesis
  proof (cases "int k - int ?br > limit")
    case False
    show ?thesis
      unfolding decreasing_run_short [OF scan False, of sub]
      using end_inv_short [OF inv k] k(1) by simp
  next
    case long: True
    show ?thesis
    proof (cases "?bu = ?n")
      case True
      let ?A = "take ?br (seq s0)"
      have dec: "seq s0 = ?A @ ?R @ ?T" using split_range [OF brk kl] .
      have lA: "length ?A = ?br" using brk kl by simp
      have cs: "ord \<Longrightarrow> merges_ok C (calls s0 @ [(Reverse ?br k, ?A @ ?R @ ?T)])"
        using mok by (rule merges_ok_reverse)
      note e = end_inv_fresh [where A = ?A and R = ?R and T = ?T and R' = "rev ?R",
          OF inv True dec lA lR k(1) mR oR cs sw]
      note r = decreasing_run_long_fresh [where A = ?A and R = ?R and T = ?T and sub = sub,
          OF scan dec lA lR long True]
      show ?thesis
        unfolding r using e k(1) by simp
    next
      case False
      let ?A = "take ?bu (seq s0)" and ?B = "subrange ?bu ?br (seq s0)"
      have bubr: "?bu \<le> ?br" using bu False by simp
      have dec: "seq s0 = ?A @ ?B @ ?R @ ?T" using split_range3 [OF bubr brk kl] .
      have lA: "length ?A = ?bu" using bubr brk kl by simp
      have lB: "?bu + length ?B = ?br" using bubr brk kl by (simp add: length_subrange)
      have mB: "mset (sub C ?B) = mset ?B" using con by (rule contract_mset)
      have lsub: "length (sub C ?B) = length ?B" using con by (rule contract_length)
      have oB: "ord \<Longrightarrow> ordered C (sub C ?B)" using so sw by (simp add: contract_ordered)
      have cs: "ord \<Longrightarrow>
          merges_ok C ((calls s0 @ [(Pdqsort ?bu ?br, ?A @ ?B @ ?R @ ?T)])
                        @ [(Reverse ?br k, ?A @ sub C ?B @ ?R @ ?T)])"
        using mok by (intro merges_ok_reverse merges_ok_pdqsort)
      note e = end_inv_pending [where A = ?A and B = ?B and R = ?R and T = ?T
            and B' = "sub C ?B" and R' = "rev ?R",
          OF inv False dec lA lB lR k(1) mB oB mR oR cs sw]
      note r = decreasing_run_long_pending [where A = ?A and B = ?B and R = ?R and T = ?T
            and sub = sub,
          OF scan dec lA lB lR long False lsub]
      show ?thesis
        unfolding r using e k(1) by simp
    qed
  qed
qed

section \<open>The main loop keeps the invariant\<close>

lemma increasing_run_inv:
  assumes con: "sub_sort_permutes sub" and so: "ord \<Longrightarrow> sub_sort_orders sub"
    and sw: "ord \<Longrightarrow> strict_weak_order C" and inv: "run_start_inv ord C xs s0"
  shows "\<exists>s1. increasing_run sub C limit (length xs) s0 = Some s1 \<and>
              run_end_inv ord C xs s1 \<and> next_it s0 \<le> next_it s1"
proof -
  let ?n = "length xs" and ?bu = "begin_unstable s0" and ?br = "current s0"
  have cur: "?br + 1 = next_it s0" and nx: "next_it s0 \<le> ?n" and len: "length (seq s0) = ?n"
    and bu: "?bu \<noteq> ?n \<longrightarrow> ?bu \<le> ?br"
    using inv by (simp_all add: run_start_inv_def)
  from increasing_range_result [OF cur nx len, of C] obtain k where
    k: "next_it s0 \<le> k" "k \<le> ?n"
    and scan: "increasing_range C ?n s0 = Some (s0\<lparr>current := k - 1, next_it := k\<rparr>)"
    and run: "\<forall>i. next_it s0 \<le> i \<and> i < k \<longrightarrow> \<not> C (seq s0 ! i) (seq s0 ! (i - 1))"
    by blast
  let ?R = "subrange ?br k (seq s0)" and ?T = "drop k (seq s0)"
  have brk: "?br \<le> k" using cur k(1) by simp
  have kl: "k \<le> length (seq s0)" using k(2) len by simp
  have lR: "?br + length ?R = k" using brk kl by (simp add: length_subrange)
  have "successively (\<lambda>a b. \<not> C b a) ?R"
    using kl run cur by (intro successively_subrange) auto
  then have oR: "ordered C ?R" by (simp add: ordered_def)
  have mR: "mset ?R = mset ?R" by simp
  have mok: "ord \<Longrightarrow> merges_ok C (calls s0)"
    using inv by (simp add: run_start_inv_def)
  show ?thesis
  proof (cases "int k - int ?br > limit")
    case False
    show ?thesis
      unfolding increasing_run_short [OF scan False, of sub]
      using end_inv_short [OF inv k] k(1) by simp
  next
    case long: True
    show ?thesis
    proof (cases "?bu = ?n")
      case True
      let ?A = "take ?br (seq s0)"
      have dec: "seq s0 = ?A @ ?R @ ?T" using split_range [OF brk kl] .
      have lA: "length ?A = ?br" using brk kl by simp
      note e = end_inv_fresh [where A = ?A and R = ?R and T = ?T and R' = ?R,
          OF inv True dec lA lR k(1) mR oR mok sw]
      note r = increasing_run_long_fresh [where A = ?A and R = ?R and T = ?T and sub = sub,
          OF scan dec lA lR long True]
      show ?thesis
        unfolding r using e k(1) by simp
    next
      case False
      let ?A = "take ?bu (seq s0)" and ?B = "subrange ?bu ?br (seq s0)"
      have bubr: "?bu \<le> ?br" using bu False by simp
      have dec: "seq s0 = ?A @ ?B @ ?R @ ?T" using split_range3 [OF bubr brk kl] .
      have lA: "length ?A = ?bu" using bubr brk kl by simp
      have lB: "?bu + length ?B = ?br" using bubr brk kl by (simp add: length_subrange)
      have mB: "mset (sub C ?B) = mset ?B" using con by (rule contract_mset)
      have lsub: "length (sub C ?B) = length ?B" using con by (rule contract_length)
      have oB: "ord \<Longrightarrow> ordered C (sub C ?B)" using so sw by (simp add: contract_ordered)
      have cs: "ord \<Longrightarrow>
          merges_ok C (calls s0 @ [(Pdqsort ?bu ?br, ?A @ ?B @ ?R @ ?T)])"
        using mok by (intro merges_ok_pdqsort)
      note e = end_inv_pending [where A = ?A and B = ?B and R = ?R and T = ?T
            and B' = "sub C ?B" and R' = ?R,
          OF inv False dec lA lB lR k(1) mB oB mR oR cs sw]
      note r = increasing_run_long_pending [where A = ?A and B = ?B and R = ?R and T = ?T
            and sub = sub,
          OF scan dec lA lB lR long False lsub]
      show ?thesis
        unfolding r using e k(1) by simp
    qed
  qed
qed

lemma advance_inv:
  "run_end_inv ord C xs s \<Longrightarrow> next_it s \<noteq> length xs \<Longrightarrow> run_start_inv ord C xs (advance s)"
  unfolding run_end_inv_def run_start_inv_def sorted_prefix_def advance_def
  by (auto split: if_splits)

lemma main_loop_inv:
  assumes con: "sub_sort_permutes sub" and so: "ord \<Longrightarrow> sub_sort_orders sub"
    and sw: "ord \<Longrightarrow> strict_weak_order C"
  shows "run_start_inv ord C xs s0 \<Longrightarrow>
     \<exists>s. main_loop sub C limit (length xs) s0 = Some s \<and> run_end_inv ord C xs s \<and>
         next_it s = length xs"
proof (induction "length xs - next_it s0" arbitrary: s0 rule: less_induct)
  case less
  from decreasing_run_inv [OF con so sw less.prems, of limit] obtain s1 where
    s1: "decreasing_run sub C limit (length xs) s0 = Some s1" "run_end_inv ord C xs s1"
    "next_it s0 \<le> next_it s1" by blast
  show ?case
  proof (cases "next_it s1 = length xs")
    case True
    have "main_loop sub C limit (length xs) s0 = Some s1"
      by (subst main_loop.simps) (simp add: s1(1) True)
    then show ?thesis using s1(2) True by blast
  next
    case False
    have i1: "run_start_inv ord C xs (advance s1)" using s1(2) False by (rule advance_inv)
    from increasing_run_inv [OF con so sw i1, of limit] obtain s2 where
      s2: "increasing_run sub C limit (length xs) (advance s1) = Some s2" "run_end_inv ord C xs s2"
      "next_it (advance s1) \<le> next_it s2" by blast
    show ?thesis
    proof (cases "next_it s2 = length xs")
      case True
      have "main_loop sub C limit (length xs) s0 = Some s2"
        by (subst main_loop.simps) (simp add: s1(1) False s2(1) True)
      then show ?thesis using s2(2) True by blast
    next
      case n2: False
      have i2: "run_start_inv ord C xs (advance s2)" using s2(2) n2 by (rule advance_inv)
      have le2: "next_it s2 \<le> length xs" using s2(2) by (simp add: run_end_inv_def)
      have "length xs - next_it (advance s2) < length xs - next_it s0"
        using s1(3) s2(3) n2 le2 by (simp add: advance_def)
      from less.hyps [OF this i2] obtain s where
        s: "main_loop sub C limit (length xs) (advance s2) = Some s" "run_end_inv ord C xs s"
        "next_it s = length xs" by blast
      have "main_loop sub C limit (length xs) s0 = Some s"
        by (subst main_loop.simps) (simp add: s1(1) False s2(1) n2 s(1))
      then show ?thesis using s(2,3) by blast
    qed
  qed
qed

section \<open>The unstable limit\<close>

lemma log2_nonneg: "0 \<le> log2 n"
proof (induction n rule: log2.induct)
  case (1 n)
  show ?case
  proof (cases "n \<le> 1")
    case True
    then show ?thesis by (subst log2.simps) simp
  next
    case False
    then have "0 \<le> log2 (n div 2)" by (rule "1.IH")
    then show ?thesis using False by (subst log2.simps) simp
  qed
qed

lemma log2_lower: "2 ^ k \<le> n \<Longrightarrow> int k \<le> log2 n"
proof (induction k arbitrary: n)
  case 0
  then show ?case by (simp add: log2_nonneg)
next
  case (Suc k)
  have p: "(1::int) \<le> 2 ^ k" by simp
  have a: "2 * 2 ^ k \<le> n" using Suc.prems by simp
  then have "2 ^ k \<le> n div 2" by linarith
  then have "int k \<le> log2 (n div 2)" by (rule Suc.IH)
  moreover have "\<not> n \<le> 1" using a p by linarith
  ultimately show ?case by (subst log2.simps) simp
qed

lemma log2_upper: "n < 2 ^ Suc k \<Longrightarrow> log2 n \<le> int k"
proof (induction k arbitrary: n)
  case 0
  then have "n \<le> 1" by simp
  then show ?case by (subst log2.simps) simp
next
  case (Suc k)
  have "n < 2 * 2 ^ Suc k" using Suc.prems by simp
  then have "n div 2 < 2 ^ Suc k" by linarith
  then have "log2 (n div 2) \<le> int k" by (rule Suc.IH)
  then show ?case by (subst log2.simps) simp
qed

lemma log2_80: "log2 80 = 6"
proof -
  have "int 6 \<le> log2 80" by (rule log2_lower) simp
  moreover have "log2 80 \<le> int 6" by (rule log2_upper) simp
  ultimately show ?thesis by simp
qed

lemma log2_large: "80 \<le> n \<Longrightarrow> 6 \<le> log2 n"
proof -
  assume "80 \<le> n"
  then have "2 ^ 6 \<le> n" by simp
  then have "int 6 \<le> log2 n" by (rule log2_lower)
  then show ?thesis by simp
qed

lemma unstable_limit_Some:
  "80 \<le> n \<Longrightarrow> unstable_limit n = Some (sint (word_of_int (n div log2 n) :: 32 word))"
  using log2_large [of n] by (simp add: unstable_limit_def)

lemma narrow_int_small: "0 \<le> q \<Longrightarrow> q < 2 ^ 31 \<Longrightarrow> sint (word_of_int q :: 32 word) = q"
  by (simp add: sint_sbintrunc' signed_take_bit_int_eq_self)

lemma narrow_int_le: "0 \<le> q \<Longrightarrow> sint (word_of_int q :: 32 word) \<le> q"
proof (cases "q < 2 ^ 31")
  case True
  assume "0 \<le> q"
  then show ?thesis using True by (simp add: narrow_int_small)
next
  case False
  have "sint (word_of_int q :: 32 word) < 2 ^ 31"
    using sint_lt [of "word_of_int q :: 32 word"] by simp
  then show ?thesis using False by linarith
qed

lemma log2_le_self: "0 \<le> n \<Longrightarrow> log2 n \<le> n"
proof (induction n rule: log2.induct)
  case (1 n)
  show ?case
  proof (cases "n \<le> 1")
    case True
    then show ?thesis using "1.prems" by (subst log2.simps) simp
  next
    case False
    then have "log2 (n div 2) \<le> n div 2" using "1.IH" "1.prems" by simp
    moreover have "1 + n div 2 \<le> n" using False by linarith
    ultimately have "1 + log2 (n div 2) \<le> n" by linarith
    then show ?thesis using False by (subst log2.simps) simp
  qed
qed

lemma quotient_bounds:
  assumes "80 \<le> n"
  shows "1 \<le> n div log2 n" and "n div log2 n < n"
proof -
  have l6: "6 \<le> log2 n" using assms by (rule log2_large)
  have ln: "log2 n \<le> n" using assms by (intro log2_le_self) simp
  have "n div log2 n \<ge> log2 n div log2 n"
    using ln l6 by (intro zdiv_mono1) simp_all
  then show "1 \<le> n div log2 n" using l6 by simp
  have "n div log2 n \<le> n div 6"
    using l6 assms by (intro zdiv_mono2) simp_all
  then show "n div log2 n < n" using assms by linarith
qed

lemma unstable_limit_less:
  "80 \<le> n \<Longrightarrow> unstable_limit n = Some limit \<Longrightarrow> limit < n"
proof -
  assume n: "80 \<le> n" and l: "unstable_limit n = Some limit"
  have "limit = sint (word_of_int (n div log2 n) :: 32 word)"
    using l unstable_limit_Some [OF n] by simp
  moreover have "0 \<le> n div log2 n" using quotient_bounds(1) [OF n] by simp
  ultimately have "limit \<le> n div log2 n" by (simp add: narrow_int_le)
  then show ?thesis using quotient_bounds(2) [OF n] by simp
qed

lemma unstable_limit_exact:
  "80 \<le> n \<Longrightarrow> n div log2 n < 2 ^ 31 \<Longrightarrow> unstable_limit n = Some (n div log2 n)"
  using quotient_bounds(1) [of n] by (simp add: unstable_limit_Some narrow_int_small)


section \<open>Entering and leaving the main loop\<close>

lemma ordered_take_le:
  "ordered C (take p xs) \<Longrightarrow> q \<le> p \<Longrightarrow> ordered C (take q xs)"
proof -
  assume o: "ordered C (take p xs)" and qp: "q \<le> p"
  have "take q xs = take q (take p xs)" using qp by (simp add: min_def)
  moreover have "ordered C (take q (take p xs))"
    using o unfolding ordered_def
    by (metis append_take_drop_id successively_append_iff)
  ultimately show ?thesis by simp
qed

lemma initial_scan_result:
  assumes n: "0 < length xs"
  shows "\<exists>p. 0 < p \<and> p \<le> length xs \<and> is_sorted_until 0 (length xs) C xs = Some p \<and>
          initial_scan C xs = Some \<lparr>seq = xs, calls = [], begin_unstable = length xs,
                                    current = p - 1, next_it = p\<rparr> \<and>
          ordered C (take p xs) \<and> (p \<noteq> length xs \<longrightarrow> C (xs ! p) (xs ! (p - 1)))"
proof -
  from is_sorted_until_result [OF n, of C] obtain p where
    p: "0 < p" "p \<le> length xs" "is_sorted_until 0 (length xs) C xs = Some p"
    "ordered C (take p xs)" "p \<noteq> length xs \<longrightarrow> C (xs ! p) (xs ! (p - 1))"
    by blast
  have "initial_scan C xs = Some \<lparr>seq = xs, calls = [], begin_unstable = length xs,
                                    current = p - 1, next_it = p\<rparr>"
    using p(1,3) by (simp add: initial_scan_def)
  then show ?thesis using p by blast
qed

lemma initial_scan_inv:
  assumes n: "0 < length xs"
  shows "\<exists>s0. initial_scan C xs = Some s0 \<and> run_start_inv ord C xs s0"
proof -
  from initial_scan_result [OF n, of C] obtain p where
    p: "0 < p" "p \<le> length xs"
    "initial_scan C xs = Some \<lparr>seq = xs, calls = [], begin_unstable = length xs,
                                    current = p - 1, next_it = p\<rparr>"
    "ordered C (take p xs)"
    by blast
  have "ordered C (take (p - 1) xs)" using p(4) by (rule ordered_take_le) simp
  then have "run_start_inv ord C xs \<lparr>seq = xs, calls = [], begin_unstable = length xs,
                                    current = p - 1, next_it = p\<rparr>"
    using p(1,2) by (simp add: run_start_inv_def sorted_prefix_def merges_ok_Nil)
  then show ?thesis using p(3) by blast
qed

lemma final_flush_pending:
  assumes dec: "seq s = A @ B" and lA: "length A = begin_unstable s"
    and lB: "begin_unstable s + length B = n" and pend: "begin_unstable s \<noteq> n"
    and lsub: "length (sub C B) = length B"
  shows "final_flush sub C n s =
    Some (s\<lparr>calls := calls s @ [(Pdqsort (begin_unstable s) n, A @ B),
                                 (Inplace_merge 0 (begin_unstable s) n, A @ sub C B)],
            seq := merge C A (sub C B)\<rparr>)"
proof -
  have sq: "seq s = A @ B @ []" using dec by simp
  note p1 = pdqsort_app [OF sq lA lB, of sub C]
  let ?s1 = "s\<lparr>calls := calls s @ [(Pdqsort (begin_unstable s) n, seq s)],
                seq := A @ sub C B @ []\<rparr>"
  have sq1: "seq ?s1 = [] @ A @ sub C B @ []" by simp
  have l2: "0 + length A = begin_unstable s" using lA by simp
  have l3: "begin_unstable s + length (sub C B) = n" using lB lsub by simp
  note p2 = inplace_merge_app [OF sq1 _ l2 l3, of C, simplified]
  show ?thesis
    unfolding final_flush_def using pend p1 p2 dec by simp
qed

lemma final_flush_inv:
  assumes con: "sub_sort_permutes sub" and so: "ord \<Longrightarrow> sub_sort_orders sub"
    and sw: "ord \<Longrightarrow> strict_weak_order C"
    and inv: "run_end_inv ord C xs s" and fin: "next_it s = length xs"
  shows "\<exists>s'. final_flush sub C (length xs) s = Some s' \<and>
           length (seq s') = length xs \<and> mset (seq s') = mset xs \<and>
           (ord \<longrightarrow> ordered C (seq s') \<and> merges_ok C (calls s'))"
proof (cases "begin_unstable s = length xs")
  case True
  have "final_flush sub C (length xs) s = Some s" using True by (simp add: final_flush_def)
  moreover have "take (length xs) (seq s) = seq s"
    using inv by (simp add: run_end_inv_def)
  then have "ord \<longrightarrow> ordered C (seq s) \<and> merges_ok C (calls s)"
    using inv True fin by (auto simp: run_end_inv_def)
  ultimately show ?thesis using inv by (simp add: run_end_inv_def)
next
  case False
  let ?bu = "begin_unstable s"
  let ?A = "take ?bu (seq s)" and ?B = "drop ?bu (seq s)"
  have len: "length (seq s) = length xs" and ms: "mset (seq s) = mset xs"
    and bu: "?bu < length xs"
    using inv False fin by (simp_all add: run_end_inv_def)
  have dec: "seq s = ?A @ ?B" by simp
  have lA: "length ?A = ?bu" using bu len by simp
  have lB: "?bu + length ?B = length xs" using bu len by simp
  have lsub: "length (sub C ?B) = length ?B" using con by (rule contract_length)
  have mB: "mset (sub C ?B) = mset ?B" using con by (rule contract_mset)
  note r = final_flush_pending [where A = ?A and B = ?B and sub = sub, OF dec lA lB False lsub]
  have l: "length (merge C ?A (sub C ?B)) = length xs"
    using lA lB lsub by (simp add: length_merge)
  have "mset (merge C ?A (sub C ?B)) = mset (?A @ ?B)"
    by (simp only: mset_merge mB mset_append)
  then have m: "mset (merge C ?A (sub C ?B)) = mset xs" using ms by simp
  have o: "ordered C (merge C ?A (sub C ?B)) \<and>
           merges_ok C ((calls s @ [(Pdqsort ?bu (length xs), ?A @ ?B)]) @
                          [(Inplace_merge 0 ?bu (length xs), ?A @ sub C ?B @ [])])"
    if ord: ord
  proof -
    note swo = sw [OF ord]
    have oA: "ordered C ?A" using inv False ord by (simp add: run_end_inv_def)
    have oB: "ordered C (sub C ?B)" using so [OF ord] swo by (rule contract_ordered)
    have mk: "merges_ok C (calls s @ [(Pdqsort ?bu (length xs), ?A @ ?B)])"
      using inv ord by (intro merges_ok_pdqsort) (simp add: run_end_inv_def)
    have l3: "?bu + length (sub C ?B) = length xs" using lB lsub by simp
    show ?thesis
      using merges_ok_merge [OF mk oA oB lA l3, of "[]"] ordered_merge [OF swo oA oB] by simp
  qed
  show ?thesis unfolding r using l m o by simp
qed

section \<open>The whole of vergesort\<close>

lemma vergesort_small:
  "length xs < 80 \<Longrightarrow>
   vergesort sub C xs = Some \<lparr>seq = sub C xs, calls = [(Pdqsort 0 (length xs), xs)]\<rparr>"
  by (simp add: vergesort_def pdqsort_def log_call_def on_range_def subrange_def)

lemma vergesort_large_inv:
  assumes con: "sub_sort_permutes sub" and so: "ord \<Longrightarrow> sub_sort_orders sub"
    and sw: "ord \<Longrightarrow> strict_weak_order C" and n: "80 \<le> length xs"
  shows "\<exists>m. vergesort sub C xs = Some m \<and> length (seq m) = length xs \<and>
           mset (seq m) = mset xs \<and> (ord \<longrightarrow> ordered C (seq m) \<and> merges_ok C (calls m))"
proof -
  let ?limit = "sint (word_of_int (int (length xs) div log2 (int (length xs))) :: 32 word)"
  have lim: "unstable_limit (int (length xs)) = Some ?limit"
    using n by (intro unstable_limit_Some) simp
  have pos: "0 < length xs" using n by linarith
  from initial_scan_inv [OF pos, of C ord] obtain s0 where
    s0: "initial_scan C xs = Some s0" "run_start_inv ord C xs s0" by blast
  from main_loop_inv [OF con so sw s0(2), of ?limit] obtain s1 where
    s1: "main_loop sub C ?limit (length xs) s0 = Some s1" "run_end_inv ord C xs s1"
    "next_it s1 = length xs" by blast
  from final_flush_inv [OF con so sw s1(2,3)] obtain s2 where
    s2: "final_flush sub C (length xs) s1 = Some s2" "length (seq s2) = length xs"
    "mset (seq s2) = mset xs" "ord \<longrightarrow> ordered C (seq s2) \<and> merges_ok C (calls s2)" by blast
  have "vergesort sub C xs = Some (memory.truncate s2)"
    using n lim s0(1) s1(1) s2(1) by (simp add: vergesort_def)
  then show ?thesis using s2(2,3,4) by (simp add: memory.truncate_def)
qed

lemma vergesort_inv:
  assumes con: "sub_sort_permutes sub" and so: "ord \<Longrightarrow> sub_sort_orders sub"
    and sw: "ord \<Longrightarrow> strict_weak_order C"
  shows "\<exists>m. vergesort sub C xs = Some m \<and> length (seq m) = length xs \<and>
           mset (seq m) = mset xs \<and> (ord \<longrightarrow> ordered C (seq m))"
proof (cases "length xs < 80")
  case True
  have "ord \<longrightarrow> ordered C (sub C xs)" using so sw by (simp add: contract_ordered)
  then show ?thesis
    using vergesort_small [OF True, of sub C] contract_mset [OF con, of C xs]
      contract_length [OF con, of C xs] by simp
next
  case False
  then have "80 \<le> length xs" by simp
  from vergesort_large_inv [OF con so sw this] show ?thesis by blast
qed

lemma mset_insert_by: "mset (insert_by C x ys) = add_mset x (mset ys)"
  by (induction ys) simp_all

lemma set_insert_by: "set (insert_by C x ys) = insert x (set ys)"
  by (induction ys) auto

lemma sorted_insert_by:
  assumes swo: "strict_weak_order C"
  shows "sorted_wrt (\<lambda>a b. \<not> C b a) ys \<Longrightarrow> sorted_wrt (\<lambda>a b. \<not> C b a) (insert_by C x ys)"
proof (induction ys)
  case Nil
  then show ?case by simp
next
  case (Cons y ys)
  show ?case
  proof (cases "C x y")
    case True
    have "\<not> C y x" using swo True by (rule swo_asym)
    moreover have "\<not> C z x" if "z \<in> set ys" for z
    proof -
      have "\<not> C z y" using Cons.prems that by auto
      with swo \<open>\<not> C y x\<close> show ?thesis by (rule swo_not_trans)
    qed
    ultimately show ?thesis using True Cons.prems by auto
  next
    case False
    then show ?thesis using Cons by (auto simp: set_insert_by)
  qed
qed

lemma insertion_sort_permutes: "sub_sort_permutes insertion_sort"
proof -
  have "mset (insertion_sort C xs) = mset xs" for C :: "'a compare" and xs
    by (induction xs) (simp_all add: insertion_sort_def mset_insert_by)
  then show ?thesis by (simp add: sub_sort_permutes_def)
qed

lemma insertion_sort_orders: "sub_sort_orders insertion_sort"
proof -
  have "sorted_wrt (\<lambda>a b. \<not> C b a) (insertion_sort C xs)"
    if "strict_weak_order C" for C :: "'a compare" and xs
    using that by (induction xs) (simp_all add: insertion_sort_def sorted_insert_by)
  then show ?thesis by (simp add: sub_sort_orders_def ordered_sorted_wrt)
qed

lemma insertion_sort_contract: "sub_sort_contract insertion_sort"
  by (simp add: sub_sort_contract_def insertion_sort_permutes insertion_sort_orders)


section \<open>Inputs below the cutoff\<close>

lemma singleton_fixed:
  "sub_sort_permutes sub \<Longrightarrow> length xs \<le> 1 \<Longrightarrow> sub C xs = xs"
proof -
  assume p: "sub_sort_permutes sub" and l: "length xs \<le> 1"
  have m: "mset (sub C xs) = mset xs" using p by (rule contract_mset)
  show ?thesis
  proof (cases xs)
    case Nil
    then show ?thesis using m by simp
  next
    case (Cons x ys)
    then have "ys = []" using l by simp
    then show ?thesis using m Cons by simp
  qed
qed


section \<open>Two whole runs: descending input and sorted input\<close>

lemma loop_exit_decreasing:
  "decreasing_run sub C limit n s0 = Some s1 \<Longrightarrow> next_it s1 = n \<Longrightarrow>
   main_loop sub C limit n s0 = Some s1"
  by (subst main_loop.simps) simp

lemma final_flush_none: "begin_unstable s = n \<Longrightarrow> final_flush sub C n s = Some s"
  by (simp add: final_flush_def)

lemma vergesort_large_unfold:
  assumes n: "80 \<le> length xs"
    and lim: "unstable_limit (int (length xs)) = Some limit"
    and s0: "initial_scan C xs = Some s0"
    and s1: "main_loop sub C limit (length xs) s0 = Some s1"
    and s2: "final_flush sub C (length xs) s1 = Some s2"
  shows "vergesort sub C xs = Some \<lparr>seq = seq s2, calls = calls s2\<rparr>"
  using assms by (simp add: vergesort_def Let_def memory.truncate_def)

lemma vergesort_descending:
  assumes n: "80 \<le> length xs"
    and noninc: "\<forall>i. i + 1 < length xs \<longrightarrow> \<not> C (xs ! i) (xs ! (i + 1))"
    and strict: "C (xs ! 1) (xs ! 0)"
  shows "vergesort sub C xs =
    Some \<lparr>seq = rev xs,
          calls = [(Reverse 0 (length xs), xs), (Inplace_merge 0 0 (length xs), rev xs)]\<rparr>"
proof -
  let ?n = "length xs"
  have pos: "0 < ?n" using n by linarith
  from initial_scan_result [OF pos, of C] obtain p where
    p: "0 < p" "p \<le> ?n"
    "initial_scan C xs = Some \<lparr>seq = xs, calls = [], begin_unstable = ?n,
                                    current = p - 1, next_it = p\<rparr>"
    "ordered C (take p xs)"
    by blast
  have p1: "p = 1"
  proof (rule ccontr)
    assume "p \<noteq> 1"
    then have "0 < (1::nat) \<and> 1 < p" using p(1) by simp
    then have "\<not> C (xs ! 1) (xs ! (1 - 1))"
      using p(2,4) ordered_take_nth [of p xs C] by blast
    then show False using strict by simp
  qed
  let ?s0 = "\<lparr>seq = xs, calls = [], begin_unstable = ?n, current = 0, next_it = 1\<rparr>"
  have init: "initial_scan C xs = Some ?s0" using p(3) p1 by simp
  have "\<exists>k. next_it ?s0 \<le> k \<and> k \<le> ?n \<and>
       decreasing_range C ?n ?s0 = Some (?s0\<lparr>current := k - 1, next_it := k\<rparr>) \<and>
       (\<forall>i. next_it ?s0 \<le> i \<and> i < k \<longrightarrow> \<not> C (seq ?s0 ! (i - 1)) (seq ?s0 ! i)) \<and>
       (k \<noteq> ?n \<longrightarrow> C (seq ?s0 ! (k - 1)) (seq ?s0 ! k))"
    using n by (intro decreasing_range_result) simp_all
  then obtain k where k: "1 \<le> k" "k \<le> ?n"
    and scan: "decreasing_range C ?n ?s0 = Some (?s0\<lparr>current := k - 1, next_it := k\<rparr>)"
    and stop: "k \<noteq> ?n \<longrightarrow> C (xs ! (k - 1)) (xs ! k)"
    by auto
  have kn: "k = ?n"
  proof (rule ccontr)
    assume "k \<noteq> ?n"
    then have a: "C (xs ! (k - 1)) (xs ! k)" and "k - 1 + 1 < ?n" using stop k by simp_all
    then have "\<not> C (xs ! (k - 1)) (xs ! (k - 1 + 1))" using noninc by blast
    then show False using a k(1) by simp
  qed
  from unstable_limit_Some [of "int ?n"] n obtain limit where
    lim: "unstable_limit (int ?n) = Some limit" by simp
  have "limit < int ?n" using lim n by (intro unstable_limit_less) simp_all
  then have long: "limit < int ?n - int (current ?s0)" by simp
  have dec: "seq ?s0 = [] @ xs @ []" by simp
  have run: "decreasing_run sub C limit ?n ?s0 =
    Some (?s0\<lparr>current := ?n - 1, next_it := ?n,
             calls := calls ?s0 @
               [(Reverse (current ?s0) ?n, [] @ xs @ []),
                (Inplace_merge 0 (current ?s0) ?n, [] @ rev xs @ [])],
             seq := merge C [] (rev xs) @ []\<rparr>)"
    using scan unfolding kn by (intro decreasing_run_long_fresh dec long) simp_all
  let ?s1 = "\<lparr>seq = rev xs, calls = [(Reverse 0 ?n, xs), (Inplace_merge 0 0 ?n, rev xs)],
              begin_unstable = ?n, current = ?n - 1, next_it = ?n\<rparr>"
  have run': "decreasing_run sub C limit ?n ?s0 = Some ?s1" using run by simp
  have loop: "main_loop sub C limit ?n ?s0 = Some ?s1"
    using run' by (rule loop_exit_decreasing) simp
  have fl: "final_flush sub C ?n ?s1 = Some ?s1" by (rule final_flush_none) simp
  show ?thesis using vergesort_large_unfold [OF n lim init loop fl] by simp
qed

lemma ordered_pairwise_last:
  assumes swo: "strict_weak_order C" and o: "ordered C xs" and x: "x \<in> set (butlast xs)"
  shows "\<not> C (last xs) x"
proof -
  have ne: "xs \<noteq> []" using x by auto
  then have "xs = butlast xs @ [last xs]" by simp
  then have "sorted_wrt (\<lambda>a b. \<not> C b a) (butlast xs @ [last xs])"
    using o swo by (simp add: ordered_sorted_wrt)
  then show ?thesis using x by (simp add: sorted_wrt_append)
qed

lemma vergesort_sorted:
  assumes swo: "strict_weak_order C" and perm: "sub_sort_permutes sub"
    and n: "80 \<le> length xs" and o: "ordered C xs"
    and fit: "int (length xs) div log2 (int (length xs)) < 2 ^ 31"
  shows "vergesort sub C xs =
    Some \<lparr>seq = xs,
          calls = [(Pdqsort (length xs - 1) (length xs), xs),
                   (Inplace_merge 0 (length xs - 1) (length xs), xs)]\<rparr>"
    and "is_sorted_until 0 (length xs) C xs = Some (length xs)"
proof -
  let ?n = "length xs"
  have pos: "0 < ?n" using n by linarith
  from initial_scan_result [OF pos, of C] obtain p where
    p: "0 < p" "p \<le> ?n" "is_sorted_until 0 ?n C xs = Some p"
    "initial_scan C xs = Some \<lparr>seq = xs, calls = [], begin_unstable = ?n,
                                    current = p - 1, next_it = p\<rparr>"
    "p \<noteq> ?n \<longrightarrow> C (xs ! p) (xs ! (p - 1))"
    by blast
  have pn: "p = ?n"
  proof (rule ccontr)
    assume "p \<noteq> ?n"
    then have a: "C (xs ! p) (xs ! (p - 1))" and "Suc (p - 1) < ?n" using p by simp_all
    then have "\<not> C (xs ! Suc (p - 1)) (xs ! (p - 1))" using o ordered_nth [of C xs] by blast
    then show False using a p(1) by simp
  qed
  show "is_sorted_until 0 ?n C xs = Some ?n" using p(3) pn by simp
  let ?s0 = "\<lparr>seq = xs, calls = [], begin_unstable = ?n, current = ?n - 1, next_it = ?n\<rparr>"
  have init: "initial_scan C xs = Some ?s0" using p(4) pn by simp
  have "decreasing_range C ?n ?s0 = Some ?s0"
    by (subst decreasing_range.simps) simp
  then have scan: "decreasing_range C ?n ?s0 = Some (?s0\<lparr>current := ?n - 1, next_it := ?n\<rparr>)"
    by simp
  have n': "80 \<le> int ?n" using n by simp
  have lim: "unstable_limit (int ?n) = Some (int ?n div log2 (int ?n))"
    using n' fit by (rule unstable_limit_exact)
  have "1 \<le> int ?n div log2 (int ?n)" using n' by (rule quotient_bounds(1))
  then have short: "\<not> int ?n div log2 (int ?n) < int ?n - int (current ?s0)"
    using pos by simp
  let ?s1 = "\<lparr>seq = xs, calls = [], begin_unstable = ?n - 1, current = ?n - 1, next_it = ?n\<rparr>"
  have run: "decreasing_run sub C (int ?n div log2 (int ?n)) ?n ?s0 = Some ?s1"
    using decreasing_run_short [OF scan short, of sub] pos by simp
  have loop: "main_loop sub C (int ?n div log2 (int ?n)) ?n ?s0 = Some ?s1"
    using run by (rule loop_exit_decreasing) simp
  let ?A = "butlast xs" and ?B = "[last xs]"
  have ne: "xs \<noteq> []" using pos by simp
  have dec: "seq ?s1 = ?A @ ?B" using ne by simp
  have sB: "sub C ?B = ?B" using perm by (rule singleton_fixed) simp
  have mg: "merge C ?A ?B = xs"
  proof -
    have "\<forall>x\<in>set ?A. \<forall>y\<in>set ?B. \<not> C y x"
      using ordered_pairwise_last [OF swo o] by simp
    then have "merge C ?A ?B = ?A @ ?B" by (rule merge_no_move)
    then show ?thesis using ne by simp
  qed
  have fl0: "final_flush sub C ?n ?s1 =
    Some (?s1\<lparr>calls := calls ?s1 @ [(Pdqsort (begin_unstable ?s1) ?n, ?A @ ?B),
                                 (Inplace_merge 0 (begin_unstable ?s1) ?n, ?A @ sub C ?B)],
            seq := merge C ?A (sub C ?B)\<rparr>)"
    using n sB by (intro final_flush_pending dec) simp_all
  let ?s2 = "\<lparr>seq = xs, calls = [(Pdqsort (?n - 1) ?n, xs), (Inplace_merge 0 (?n - 1) ?n, xs)],
              begin_unstable = ?n - 1, current = ?n - 1, next_it = ?n\<rparr>"
  have fl: "final_flush sub C ?n ?s1 = Some ?s2"
    using fl0 ne unfolding sB mg by simp
  show "vergesort sub C xs =
    Some \<lparr>seq = xs,
          calls = [(Pdqsort (?n - 1) ?n, xs), (Inplace_merge 0 (?n - 1) ?n, xs)]\<rparr>"
    using vergesort_large_unfold [OF n lim init loop fl] by simp
qed

section \<open>The states in which a run detection starts\<close>

lemma run_start_inv_holds:
  assumes perm: "sub_sort_permutes sub" and so: "ord \<Longrightarrow> sub_sort_orders sub"
    and sw: "ord \<Longrightarrow> strict_weak_order C"
  shows "run_start sub C xs d s \<Longrightarrow> run_start_inv ord C xs s"
proof (induction rule: run_start.induct)
  case (enter limit s)
  then have "0 < length xs" by linarith
  from initial_scan_inv [OF this, of C ord] enter(3) show ?case by auto
next
  case (after_decreasing s limit s1)
  from decreasing_run_inv [OF perm so sw after_decreasing.IH, of limit] after_decreasing(3)
  have "run_end_inv ord C xs s1" by auto
  then show ?case using after_decreasing(4) by (rule advance_inv)
next
  case (after_increasing s limit s2)
  from increasing_run_inv [OF perm so sw after_increasing.IH, of limit] after_increasing(3)
  have "run_end_inv ord C xs s2" by auto
  then show ?case using after_increasing(4) by (rule advance_inv)
qed


lemma vergesort_merges_ok:
  assumes swo: "strict_weak_order C" and con: "sub_sort_contract sub"
  shows "\<exists>m. vergesort sub C xs = Some m \<and> merges_ok C (calls m)"
proof (cases "length xs < 80")
  case True
  have "merges_ok C [(Pdqsort 0 (length xs), xs)]"
    using merges_ok_pdqsort [OF merges_ok_Nil, of C 0 "length xs" xs] by simp
  then show ?thesis using vergesort_small [OF True, of sub C] by simp
next
  case False
  then have n: "80 \<le> length xs" by simp
  have perm: "sub_sort_permutes sub" and so: "sub_sort_orders sub"
    using con by (simp_all add: sub_sort_contract_def)
  from vergesort_large_inv [where ord = True, OF perm so swo n] show ?thesis by auto
qed


section \<open>The calls made by a dispatched run and by the final flush\<close>




section \<open>The run detections of one call\<close>




section \<open>Ordered sequences with the same elements\<close>

lemma swo_by_key: "strict_weak_order by_key"
  by (auto simp: strict_weak_order_def by_key_def)

lemma ordered_unique:
  assumes swo: "strict_weak_order C"
  shows "sorted_wrt (\<lambda>a b. \<not> C b a) xs \<Longrightarrow> sorted_wrt (\<lambda>a b. \<not> C b a) ys \<Longrightarrow>
     mset ys = mset xs \<Longrightarrow> (\<forall>a\<in>set xs. \<forall>b\<in>set xs. \<not> C a b \<and> \<not> C b a \<longrightarrow> a = b) \<Longrightarrow>
     ys = xs"
proof (induction xs arbitrary: ys)
  case Nil
  then show ?case by simp
next
  case (Cons x xs)
  from Cons.prems(3) obtain y ys' where ys: "ys = y # ys'" by (cases ys) auto
  have sets: "set ys = set (x # xs)" using Cons.prems(3) by (metis mset_eq_setD)
  have xy: "\<not> C y x"
  proof -
    have "y \<in> set (x # xs)" using sets ys by auto
    then show ?thesis using Cons.prems(1) swo_irrefl [OF swo] by auto
  qed
  have yx: "\<not> C x y"
  proof -
    have "x \<in> set (y # ys')" using sets ys by auto
    then show ?thesis using Cons.prems(2) ys swo_irrefl [OF swo] by auto
  qed
  have "y \<in> set (x # xs)" using sets ys by auto
  then have e: "y = x" using Cons.prems(4) xy yx by auto
  have "ys' = xs"
  proof (rule Cons.IH)
    show "sorted_wrt (\<lambda>a b. \<not> C b a) xs" using Cons.prems(1) by simp
    show "sorted_wrt (\<lambda>a b. \<not> C b a) ys'" using Cons.prems(2) ys by simp
    show "mset ys' = mset xs" using Cons.prems(3) ys e by simp
    show "\<forall>a\<in>set xs. \<forall>b\<in>set xs. \<not> C a b \<and> \<not> C b a \<longrightarrow> a = b"
      using Cons.prems(4) by auto
  qed
  then show ?case using ys e by simp
qed

lemma sub_sort_fixes_sorted:
  assumes "strict_weak_order C" and "sub_sort_permutes sub" and "sub_sort_orders sub"
    and "ordered C xs"
    and "\<forall>a\<in>set xs. \<forall>b\<in>set xs. \<not> C a b \<and> \<not> C b a \<longrightarrow> a = b"
  shows "sub C xs = xs"
proof -
  have "sorted_wrt (\<lambda>a b. \<not> C b a) xs"
    using assms(1,4) by (simp add: ordered_sorted_wrt)
  moreover have "sorted_wrt (\<lambda>a b. \<not> C b a) (sub C xs)"
    using assms(1,3) by (simp add: contract_ordered flip: ordered_sorted_wrt)
  moreover have "mset (sub C xs) = mset xs" using assms(2) by (rule contract_mset)
  ultimately show ?thesis using assms(1,5) by (intro ordered_unique)
qed

section \<open>One detected run, from detection to the end of the call\<close>



section \<open>Correctness and permutation\<close>

text \<open>
  Claim C1.  For every sequence \<open>S\<close> and every strict weak ordering \<open>C\<close>, with a sub-sort
  that meets its contract, \<open>vergesort\<close> returns, the sequence it leaves in the caller's
  range has the length and the elements of \<open>S\<close>, and it is fully ordered under \<open>C\<close>:
  \<open>C (S[i+1]) (S[i])\<close> is false for every adjacent pair of positions \<open>i < len(S) - 1\<close>.
\<close>

theorem vergesort_sorts:
  assumes "strict_weak_order C" and "sub_sort_contract sub"
  shows "\<exists>m. vergesort sub C xs = Some m \<and>
           length (seq m) = length xs \<and> mset (seq m) = mset xs \<and>
           (\<forall>i. i + 1 < length xs \<longrightarrow> \<not> C (seq m ! (i + 1)) (seq m ! i))"
proof -
  have con: "sub_sort_permutes sub" and so: "sub_sort_orders sub"
    using assms(2) by (simp_all add: sub_sort_contract_def)
  from vergesort_inv [where ord = True and xs = xs, OF con so assms(1)] obtain m where
    m: "vergesort sub C xs = Some m" "length (seq m) = length xs" "mset (seq m) = mset xs"
      "ordered C (seq m)" by auto
  from m(4) have "\<forall>i. i + 1 < length (seq m) \<longrightarrow> \<not> C (seq m ! (i + 1)) (seq m ! i)"
    by (simp add: ordered_nth)
  then have "\<forall>i. i + 1 < length xs \<longrightarrow> \<not> C (seq m ! (i + 1)) (seq m ! i)"
    using m(2) by simp
  with m(1,2,3) show ?thesis by blast
qed

theorem vergesort_sorts_witness:
  "strict_weak_order ((<) :: nat compare) \<and> sub_sort_contract (insertion_sort :: nat compare \<Rightarrow> _) \<and>
   (\<exists>m. vergesort insertion_sort (<) ([0..<50] @ rev [50..<100]) = Some m \<and>
      length (seq m) = length ([0..<50] @ rev [50..<100]) \<and>
      mset (seq m) = mset ([0..<50] @ rev [50..<100]) \<and>
      (\<forall>i. i + 1 < length ([0..<50] @ rev [50..<100]) \<longrightarrow> \<not> seq m ! (i + 1) < seq m ! i))"
  using vergesort_sorts [OF swo_less insertion_sort_contract, of "[0..<50] @ rev [50..<100]"]
    swo_less insertion_sort_contract by blast


text \<open>
  Claim C2.  For every sequence and every comparator (a strict weak ordering or not),
  with a sub-sort that only rearranges what it is given, \<open>vergesort\<close> returns and the
  sequence it leaves is a permutation of the input: the multiset of elements is
  unchanged.
\<close>

theorem vergesort_permutes:
  assumes "sub_sort_permutes sub"
  shows "\<exists>m. vergesort sub C xs = Some m \<and> mset (seq m) = mset xs"
proof -
  from vergesort_inv [where ord = False and C = C and xs = xs, OF assms] show ?thesis by auto
qed

theorem vergesort_permutes_witness:
  "sub_sort_permutes (insertion_sort :: nat compare \<Rightarrow> _) \<and>
   (\<exists>m. vergesort insertion_sort (\<le>) ([0..<50] @ rev [50..<100]) = Some m \<and>
      mset (seq m) = mset ([0..<50] @ rev [50..<100]))"
  using vergesort_permutes [OF insertion_sort_permutes, of "(\<le>)" "[0..<50] @ rev [50..<100]"]
    insertion_sort_permutes by blast

text \<open>
  Claim C6.  For every input of length \<open>n < 80\<close>, every comparator and every sub-sort,
  \<open>vergesort\<close> is the one call \<open>pdqsort(first, last, compare)\<close> on the whole range: same
  final sequence (the sub-sort's output on the input) and same call log.
\<close>

theorem vergesort_below_cutoff:
  "length xs < 80 \<Longrightarrow>
   vergesort sub C xs = pdqsort sub 0 (length xs) C \<lparr>seq = xs, calls = []\<rparr> \<and>
   map_option seq (vergesort sub C xs) = Some (sub C xs)"
  by (simp add: vergesort_small) (simp add: pdqsort_def log_call_def on_range_def subrange_def)

theorem vergesort_below_cutoff_witness:
  "length [5, 4, 3, 2, 1, 6, 7, 8, 9, 10 :: nat] < 80 \<and>
   vergesort insertion_sort (<) [5, 4, 3, 2, 1, 6, 7, 8, 9, 10 :: nat] =
     pdqsort insertion_sort 0 (length [5, 4, 3, 2, 1, 6, 7, 8, 9, 10 :: nat]) (<)
       \<lparr>seq = [5, 4, 3, 2, 1, 6, 7, 8, 9, 10], calls = []\<rparr> \<and>
   map_option seq (vergesort insertion_sort (<) [5, 4, 3, 2, 1, 6, 7, 8, 9, 10 :: nat]) =
     Some [1, 2, 3, 4, 5, 6, 7, 8, 9, 10]"
proof -
  have h: "length [5, 4, 3, 2, 1, 6, 7, 8, 9, 10 :: nat] < 80" by simp
  have e: "insertion_sort (<) [5, 4, 3, 2, 1, 6, 7, 8, 9, 10 :: nat] = [1, 2, 3, 4, 5, 6, 7, 8, 9, 10]"
    by (simp add: insertion_sort_def)
  show ?thesis
    using vergesort_below_cutoff [OF h, of insertion_sort "(<)"] h unfolding e by blast
qed


text \<open>
  Claim C5 as stated ("no call to the fallback sub-sort") fails: on the empty range the
  code still executes line 89, \<open>pdqsort(first, last, compare)\<close>.
\<close>

theorem vergesort_empty_counterexample:
  "map_option trace (vergesort insertion_sort (<) ([] :: nat list)) = Some [Pdqsort 0 0]"
  by (simp add: vergesort_small trace_def)

text \<open>
  Claim C5, amended.  For inputs of length \<open>n = 0\<close> and \<open>n = 1\<close>, with a sub-sort that
  only rearranges what it is given, \<open>vergesort\<close> returns with the sequence unchanged and
  makes no merge call; its one and only call is the fallback sub-sort on the whole
  range, which leaves the range as it is.
\<close>

theorem vergesort_empty_singleton:
  "sub_sort_permutes sub \<Longrightarrow> length xs \<le> 1 \<Longrightarrow>
   vergesort sub C xs = Some \<lparr>seq = xs, calls = [(Pdqsort 0 (length xs), xs)]\<rparr>"
  by (simp add: vergesort_small singleton_fixed)

theorem vergesort_empty_singleton_witness:
  "sub_sort_permutes (insertion_sort :: nat compare \<Rightarrow> _) \<and> length [7 :: nat] \<le> 1 \<and>
   vergesort insertion_sort (<) [7 :: nat] = Some \<lparr>seq = [7], calls = [(Pdqsort 0 (length [7 :: nat]), [7])]\<rparr>"
proof -
  have h: "length [7 :: nat] \<le> 1" by simp
  show ?thesis
    using vergesort_empty_singleton [OF insertion_sort_permutes h, of "(<)"]
      insertion_sort_permutes h by blast
qed

section \<open>The threshold\<close>

text \<open>
  Claim C4 as stated fails on the factor \<open>0.9\<close>: line 94 computes the integer quotient
  \<open>dist / log2(dist)\<close> and nothing else.  For \<open>dist = 80\<close> the code's threshold is \<open>13\<close>,
  while \<open>80 / log2(80) * 0.9\<close> is below \<open>12\<close> with the real logarithm and exactly \<open>12\<close>
  with the integer one.  (The factor appears in the benchmark only, where it builds
  inputs whose runs stay under the threshold.)
\<close>

lemma log_2_80: "6 < log 2 (80 :: real)"
proof -
  have "(2 :: real) powr 6 < 80" by simp
  then show ?thesis by (simp add: less_log_iff)
qed

theorem unstable_limit_counterexample:
  "unstable_limit 80 = Some 13 \<and>
   (80 :: real) / log 2 80 * 0.9 < 12 \<and>
   (80 :: real) / real_of_int (log2 80) * 0.9 = 12"
proof -
  have a: "unstable_limit 80 = Some 13"
    using unstable_limit_exact [of 80] by (simp add: log2_80)
  have "72 < 12 * log 2 (80 :: real)" using log_2_80 by simp
  then have b: "(80 :: real) / log 2 80 * 0.9 < 12"
    using log_2_80 by (simp add: field_simps)
  have c: "(80 :: real) / real_of_int (log2 80) * 0.9 = 12" by (simp add: log2_80)
  show ?thesis using a b c by simp
qed

text \<open>
  Claim C4, amended.  For every call on a range of length \<open>n \<ge> 80\<close> the threshold is the
  integer quotient \<open>n / log2(n)\<close> narrowed to \<open>int\<close> (the quotient itself whenever it is
  below \<open>2^31\<close>), with no factor \<open>0.9\<close>.  It is computed once, from the length of the
  whole range, before the main loop; the call is the pipeline below with that one value
  as the \<open>limit\<close> argument of the main loop, and the loop hands the same \<open>limit\<close> to both
  run dispatches of an iteration and on to the next iteration.
\<close>

theorem unstable_limit_formula:
  "80 \<le> length xs \<Longrightarrow>
   unstable_limit (int (length xs)) =
     Some (sint (word_of_int (int (length xs) div log2 (int (length xs))) :: 32 word)) \<and>
   (int (length xs) div log2 (int (length xs)) < 2 ^ 31 \<longrightarrow>
      unstable_limit (int (length xs)) = Some (int (length xs) div log2 (int (length xs)))) \<and>
   vergesort sub C xs = do {
     s0 \<leftarrow> initial_scan C xs;
     s1 \<leftarrow> main_loop sub C (the (unstable_limit (int (length xs)))) (length xs) s0;
     s2 \<leftarrow> final_flush sub C (length xs) s1;
     Some (memory.truncate s2)
   } \<and>
   (\<forall>limit s. main_loop sub C limit (length xs) s = do {
     s1 \<leftarrow> decreasing_run sub C limit (length xs) s;
     if next_it s1 = length xs then Some s1
     else do {
       s2 \<leftarrow> increasing_run sub C limit (length xs) (advance s1);
       if next_it s2 = length xs then Some s2
       else main_loop sub C limit (length xs) (advance s2)
     }
   })"
proof -
  assume n: "80 \<le> length xs"
  then have n': "80 \<le> int (length xs)" by simp
  note l = unstable_limit_Some [OF n']
  have "vergesort sub C xs = do {
     s0 \<leftarrow> initial_scan C xs;
     s1 \<leftarrow> main_loop sub C (the (unstable_limit (int (length xs)))) (length xs) s0;
     s2 \<leftarrow> final_flush sub C (length xs) s1;
     Some (memory.truncate s2)
   }" using n by (simp add: vergesort_def l Let_def)
  moreover have "\<forall>limit s. main_loop sub C limit (length xs) s = do {
     s1 \<leftarrow> decreasing_run sub C limit (length xs) s;
     if next_it s1 = length xs then Some s1
     else do {
       s2 \<leftarrow> increasing_run sub C limit (length xs) (advance s1);
       if next_it s2 = length xs then Some s2
       else main_loop sub C limit (length xs) (advance s2)
     }
   }" by (intro allI) (rule main_loop.simps)
  ultimately show ?thesis using l unstable_limit_exact [OF n'] by simp
qed

theorem unstable_limit_formula_witness:
  "80 \<le> length (rev [0..<100]) \<and>
   unstable_limit (int (length (rev [0..<100]))) = Some 16 \<and>
   int (length (rev [0..<100])) div log2 (int (length (rev [0..<100]))) < 2 ^ 31 \<and>
   vergesort insertion_sort (<) (rev [0..<100]) = do {
     s0 \<leftarrow> initial_scan (<) (rev [0..<100]);
     s1 \<leftarrow> main_loop insertion_sort (<) 16 (length (rev [0..<100])) s0;
     s2 \<leftarrow> final_flush insertion_sort (<) (length (rev [0..<100])) s1;
     Some (memory.truncate s2)
   }"
proof -
  have h: "80 \<le> length (rev [0..<100])" by simp
  have l: "log2 100 = 6"
  proof -
    have "int 6 \<le> log2 100" by (rule log2_lower) simp
    moreover have "log2 100 \<le> int 6" by (rule log2_upper) simp
    ultimately show ?thesis by simp
  qed
  have q: "int (length (rev [0..<100])) div log2 (int (length (rev [0..<100]))) = 16"
    by (simp add: l)
  from unstable_limit_formula [OF h, of insertion_sort "(<)"] show ?thesis
    unfolding q using h by simp
qed

section \<open>Already sorted and reverse-sorted inputs\<close>

text \<open>
  Claim C3 as stated fails in two places.  First ("no merges triggered", "the routine
  returns immediately"): on the sorted sequence \<open>0, 1, \<dots>, 79\<close> the scan of line 101
  reaches \<open>last\<close>, the main loop is entered all the same with \<open>current = last - 1\<close>, the
  last element is taken as a short run and becomes the pending batch, and lines 177-181
  sub-sort it and merge it: the calls are \<open>pdqsort(last - 1, last)\<close> and
  \<open>inplace_merge(first, last - 1, last)\<close>.  Second ("produces the same sequence"): below
  the cutoff the result is whatever the sub-sort returns, and the contract of the
  sub-sort allows any ordered arrangement; on two different elements that tie under the
  comparator, a sub-sort within its contract returns them swapped.
\<close>

theorem sorted_input_counterexample:
  "length [0..<80] = 80 \<and> ordered (<) [0..<80] \<and>
   map_option trace (vergesort insertion_sort (<) [0..<80]) =
     Some [Pdqsort 79 80, Inplace_merge 0 79 80] \<and>
   strict_weak_order by_key \<and>
   sub_sort_contract (insertion_sort :: (nat \<times> nat) compare \<Rightarrow> _) \<and>
   ordered by_key [(1, 0), (1, 1)] \<and>
   map_option seq (vergesort insertion_sort by_key [(1, 0), (1, 1)]) = Some [(1, 1), (1, 0)]"
proof -
  have a: "length [0..<80] = 80 \<and> ordered (<) [0..<80] \<and>
   map_option trace (vergesort insertion_sort (<) [0..<80]) =
     Some [Pdqsort 79 80, Inplace_merge 0 79 80]"
    by code_simp
  have b: "ordered by_key [(1, 0), (1, 1)] \<and>
   map_option seq (vergesort insertion_sort by_key [(1, 0), (1, 1)]) = Some [(1, 1), (1, 0)]"
    by code_simp
  show ?thesis using a b swo_by_key insertion_sort_contract by simp
qed

text \<open>
  Claim C3, amended.  For every sequence already sorted under a strict weak ordering,
  with a sub-sort that only rearranges what it is given: if \<open>n \<ge> 80\<close> (and the threshold
  fits in an \<open>int\<close>), the single forward scan of \<open>is_sorted_until\<close> reaches \<open>last\<close>, and
  \<open>vergesort\<close> produces the same sequence; after the scan it makes exactly two calls, the
  sub-sort on the last element alone and one in-place merge of \<open>[first, last - 1)\<close> with
  \<open>[last - 1, last)\<close>, neither of which moves an element.  If \<open>n < 80\<close> there is no scan
  and no merge: the whole range goes to the sub-sort, whose output is the result; it is
  the same sequence whenever the sub-sort orders its input and the only elements of the
  sequence that tie under the comparator are equal ones (as under a linear order).
\<close>

theorem vergesort_already_sorted:
  assumes "strict_weak_order C" and "sub_sort_permutes sub" and "ordered C xs"
  shows "(length xs < 80 \<longrightarrow>
            vergesort sub C xs =
              Some \<lparr>seq = sub C xs, calls = [(Pdqsort 0 (length xs), xs)]\<rparr> \<and>
            (sub_sort_orders sub \<and>
             (\<forall>a\<in>set xs. \<forall>b\<in>set xs. \<not> C a b \<and> \<not> C b a \<longrightarrow> a = b) \<longrightarrow>
               vergesort sub C xs =
                 Some \<lparr>seq = xs, calls = [(Pdqsort 0 (length xs), xs)]\<rparr>)) \<and>
         (80 \<le> length xs \<and> int (length xs) div log2 (int (length xs)) < 2 ^ 31 \<longrightarrow>
            is_sorted_until 0 (length xs) C xs = Some (length xs) \<and>
            vergesort sub C xs =
              Some \<lparr>seq = xs,
                    calls = [(Pdqsort (length xs - 1) (length xs), xs),
                             (Inplace_merge 0 (length xs - 1) (length xs), xs)]\<rparr>)"
proof -
  have small: "vergesort sub C xs =
      Some \<lparr>seq = sub C xs, calls = [(Pdqsort 0 (length xs), xs)]\<rparr>"
    if "length xs < 80"
    using that by (rule vergesort_small)
  have same: "sub C xs = xs"
    if "sub_sort_orders sub" "\<forall>a\<in>set xs. \<forall>b\<in>set xs. \<not> C a b \<and> \<not> C b a \<longrightarrow> a = b"
    using assms(1,2) that(1) assms(3) that(2) by (rule sub_sort_fixes_sorted)
  have large: "is_sorted_until 0 (length xs) C xs = Some (length xs) \<and>
            vergesort sub C xs =
              Some \<lparr>seq = xs,
                    calls = [(Pdqsort (length xs - 1) (length xs), xs),
                             (Inplace_merge 0 (length xs - 1) (length xs), xs)]\<rparr>"
    if "80 \<le> length xs" "int (length xs) div log2 (int (length xs)) < 2 ^ 31"
    using vergesort_sorted [OF assms(1,2) that(1) assms(3) that(2)] by simp
  show ?thesis using small same large by simp
qed

theorem vergesort_already_sorted_witness:
  "strict_weak_order ((<) :: nat compare) \<and> sub_sort_permutes (insertion_sort :: nat compare \<Rightarrow> _) \<and>
   ordered (<) [0..<80] \<and> 80 \<le> length [0..<80] \<and>
   int (length [0..<80]) div log2 (int (length [0..<80])) < 2 ^ 31 \<and>
   is_sorted_until 0 (length [0..<80]) (<) [0..<80] = Some (length [0..<80]) \<and>
   vergesort insertion_sort (<) [0..<80] =
     Some \<lparr>seq = [0..<80],
           calls = [(Pdqsort (length [0..<80] - 1) (length [0..<80]), [0..<80]),
                    (Inplace_merge 0 (length [0..<80] - 1) (length [0..<80]), [0..<80])]\<rparr> \<and>
   ordered (<) [1, 2, 3 :: nat] \<and> length [1, 2, 3 :: nat] < 80 \<and>
   sub_sort_orders (insertion_sort :: nat compare \<Rightarrow> _) \<and>
   vergesort insertion_sort (<) [1, 2, 3 :: nat] =
     Some \<lparr>seq = [1, 2, 3], calls = [(Pdqsort 0 (length [1, 2, 3 :: nat]), [1, 2, 3])]\<rparr>"
proof -
  have o: "ordered (<) [0..<80]"
    using sorted_wrt_upt [of 0 80]
    by (simp add: ordered_sorted_wrt [OF swo_less] sorted_wrt_mono_rel [of "[0..<80]" "(<)"])
  have n: "80 \<le> length [0..<80]" by simp
  have fit: "int (length [0..<80]) div log2 (int (length [0..<80])) < 2 ^ 31"
    by (simp add: log2_80)
  have o3: "ordered (<) [1, 2, 3 :: nat]" by (simp add: ordered_def)
  have n3: "length [1, 2, 3 :: nat] < 80" by simp
  have lin: "\<forall>a\<in>set [1, 2, 3 :: nat]. \<forall>b\<in>set [1, 2, 3 :: nat]. \<not> a < b \<and> \<not> b < a \<longrightarrow> a = b"
    by auto
  have large: "is_sorted_until 0 (length [0..<80]) (<) [0..<80] = Some (length [0..<80]) \<and>
   vergesort insertion_sort (<) [0..<80] =
     Some \<lparr>seq = [0..<80],
           calls = [(Pdqsort (length [0..<80] - 1) (length [0..<80]), [0..<80]),
                    (Inplace_merge 0 (length [0..<80] - 1) (length [0..<80]), [0..<80])]\<rparr>"
    using vergesort_already_sorted [OF swo_less insertion_sort_permutes o] n fit by blast
  have small: "vergesort insertion_sort (<) [1, 2, 3 :: nat] =
     Some \<lparr>seq = [1, 2, 3], calls = [(Pdqsort 0 (length [1, 2, 3 :: nat]), [1, 2, 3])]\<rparr>"
    using vergesort_already_sorted [OF swo_less insertion_sort_permutes o3] n3
      insertion_sort_orders lin by blast
  show ?thesis
    using swo_less insertion_sort_permutes insertion_sort_orders o n fit o3 n3 large small
    by blast
qed

text \<open>
  Claim C7 as stated fails on reverse-sorted inputs with ties.  The sequence of seventy
  ones followed by ten zeros is sorted in reverse, of length 80; its first inversion is
  at position 70, the decreasing run found there is \<open>[69, 80)\<close>, of length 11, below the
  threshold 13, so it becomes the pending batch and is sub-sorted at the end: one call of
  the fallback sub-sort and no reversal.
\<close>

theorem descending_with_ties_counterexample:
  "length (replicate 70 (1 :: nat) @ replicate 10 0) = 80 \<and>
   ordered (<) (rev (replicate 70 (1 :: nat) @ replicate 10 0)) \<and>
   map_option trace (vergesort insertion_sort (<) (replicate 70 (1 :: nat) @ replicate 10 0)) =
     Some [Pdqsort 69 80, Inplace_merge 0 69 80]"
  by code_simp

text \<open>
  Claim C7, amended.  For every input of length \<open>n \<ge> 80\<close> that never increases from one
  position to the next and whose second element ranks strictly before the first (every
  strictly descending input is one), under any comparator and any sub-sort,
  \<open>vergesort\<close> takes the whole range as one long decreasing run: it reverses the whole
  range once, makes one in-place merge with an empty left range, never calls the
  sub-sort, and leaves the reversed input.
\<close>

theorem vergesort_descending_run:
  "80 \<le> length xs \<Longrightarrow>
   (\<forall>i. i + 1 < length xs \<longrightarrow> \<not> C (xs ! i) (xs ! (i + 1))) \<Longrightarrow> C (xs ! 1) (xs ! 0) \<Longrightarrow>
   vergesort sub C xs =
     Some \<lparr>seq = rev xs,
           calls = [(Reverse 0 (length xs), xs), (Inplace_merge 0 0 (length xs), rev xs)]\<rparr>"
  by (rule vergesort_descending)

theorem vergesort_descending_run_witness:
  "80 \<le> length (rev [0..<80]) \<and>
   successively (\<lambda>a b. \<not> a < b) (rev [0..<80]) \<and>
   rev [0..<80] ! 1 < rev [0..<80] ! 0 \<and>
   vergesort insertion_sort (<) (rev [0..<80]) =
     Some \<lparr>seq = rev (rev [0..<80]),
           calls = [(Reverse 0 (length (rev [0..<80])), rev [0..<80]),
                    (Inplace_merge 0 0 (length (rev [0..<80])), rev (rev [0..<80]))]\<rparr>"
proof -
  have h1: "80 \<le> length (rev [0..<80])" by simp
  have h2: "\<forall>i. i + 1 < length (rev [0..<80]) \<longrightarrow> \<not> rev [0..<80] ! i < rev [0..<80] ! (i + 1)"
    by (auto simp: rev_nth)
  have h2': "successively (\<lambda>a b. \<not> a < b) (rev [0..<80])"
    using h2 by (simp add: successively_conv_nth)
  have h3: "rev [0..<80] ! 1 < rev [0..<80] ! 0" by (simp add: rev_nth)
  from vergesort_descending_run [OF h1 h2 h3, of insertion_sort] show ?thesis
    using h1 h2' h3 by blast
qed

section \<open>The pending batch and the sorted prefix\<close>



text \<open>
  Claim C10.  Loop invariant of the main scan, under a strict weak ordering and a
  sub-sort that meets its contract: in every state in which the detection of a run
  starts, the part of the sequence from \<open>first\<close> up to \<open>begin_unstable\<close> (a batch is
  pending) or up to the start of the run about to be detected (\<open>begin_unstable\<close> is the
  sentinel \<open>last\<close>) is ordered.  Every merge made so far, and every merge of the whole
  call, was given ranges that were ordered at the moment of the call, and merged into
  the prefix: its range begins at \<open>first\<close>, or it is the right-pair merge inside a
  three-way merge that begins at \<open>first\<close>.
\<close>

theorem main_loop_sorted_prefix:
  assumes "strict_weak_order C" and "sub_sort_contract sub" and "run_start sub C xs d s"
  shows "sorted_prefix C (length xs) s \<and> merges_ok C (calls s) \<and>
         (\<exists>m. vergesort sub C xs = Some m \<and> merges_ok C (calls m))"
proof -
  have perm: "sub_sort_permutes sub" and so: "sub_sort_orders sub"
    using assms(2) by (simp_all add: sub_sort_contract_def)
  from run_start_inv_holds [where ord = True, OF perm so assms(1) assms(3)]
  have "sorted_prefix C (length xs) s \<and> merges_ok C (calls s)"
    by (simp add: run_start_inv_def)
  then show ?thesis using vergesort_merges_ok [OF assms(1,2), of xs] by simp
qed

theorem main_loop_sorted_prefix_witness:
  "strict_weak_order ((<) :: nat compare) \<and>
   sub_sort_contract (insertion_sort :: nat compare \<Rightarrow> _) \<and>
   run_start insertion_sort (<) (rev [50..<100] @ [0..<50]) False
     \<lparr>seq = [0] @ [50..<100] @ [1..<50],
      calls = [(Reverse 0 51, rev [50..<100] @ [0..<50]),
               (Inplace_merge 0 0 51, [0] @ [50..<100] @ [1..<50])],
      begin_unstable = 100, current = 51, next_it = 52\<rparr> \<and>
   sorted_prefix (<) (length (rev [50..<100] @ [0..<50]))
     \<lparr>seq = [0] @ [50..<100] @ [1..<50],
      calls = [(Reverse 0 51, rev [50..<100] @ [0..<50]),
               (Inplace_merge 0 0 51, [0] @ [50..<100] @ [1..<50])],
      begin_unstable = 100, current = 51, next_it = 52\<rparr> \<and>
   merges_ok (<) [(Reverse 0 51, rev [50..<100] @ [0..<50]),
                  (Inplace_merge 0 0 51, [0] @ [50..<100] @ [1..<50])] \<and>
   (\<exists>m. vergesort insertion_sort (<) (rev [50..<100] @ [0..<50]) = Some m \<and>
        merges_ok (<) (calls m))"
proof -
  let ?xs = "rev [50..<100] @ [0..<50]"
  let ?ys = "[0] @ [50..<100] @ [1..<50]"
  let ?cs = "[(Reverse 0 51, ?xs), (Inplace_merge 0 0 51, ?ys)]"
  let ?s0 = "\<lparr>seq = ?xs, calls = [], begin_unstable = 100, current = 0, next_it = 1\<rparr>"
  let ?s1 = "\<lparr>seq = ?ys, calls = ?cs, begin_unstable = 100, current = 50, next_it = 51\<rparr>"
  let ?t = "\<lparr>seq = ?ys, calls = ?cs, begin_unstable = 100, current = 51, next_it = 52\<rparr>"
  have big: "\<not> int (length ?xs) < 80" by simp
  have lim: "unstable_limit (int (length ?xs)) = Some 16" by code_simp
  have i0: "initial_scan (<) ?xs = Some ?s0" by code_simp
  have r1: "decreasing_run insertion_sort (<) 16 (length ?xs) ?s0 = Some ?s1" by code_simp
  have n1: "next_it ?s1 \<noteq> length ?xs" by simp
  have a1: "advance ?s1 = ?t" by (simp add: advance_def)
  note e = run_start.enter [OF big lim i0, of insertion_sort]
  have rs: "run_start insertion_sort (<) ?xs False ?t"
    using run_start.after_decreasing [OF e lim r1 n1] unfolding a1 .
  from main_loop_sorted_prefix [OF swo_less insertion_sort_contract rs]
  show ?thesis using swo_less insertion_sort_contract rs by simp
qed

section \<open>The three-way merge\<close>

text \<open>
  Claim C8.  For boundaries \<open>first \<le> middle1 \<le> middle2 \<le> last\<close> inside the sequence whose
  three ranges are each ordered under a strict weak ordering, \<open>inplace_merge3\<close> returns,
  leaves \<open>[first, last)\<close> ordered and a permutation of its former contents, touches
  nothing outside that range, and performs its two in-place merges in the order chosen
  by the distances: the left pair first exactly when
  \<open>distance(first, middle1) < distance(middle2, last)\<close>, the right pair first otherwise.
\<close>

theorem inplace_merge3_correct:
  assumes swo: "strict_weak_order C"
    and b1: "first \<le> middle1" and b2: "middle1 \<le> middle2" and b3: "middle2 \<le> last_it"
    and b4: "last_it \<le> length (seq m)"
    and o1: "ordered C (subrange first middle1 (seq m))"
    and o2: "ordered C (subrange middle1 middle2 (seq m))"
    and o3: "ordered C (subrange middle2 last_it (seq m))"
  shows "\<exists>m'. inplace_merge3 first middle1 middle2 last_it C m = Some m' \<and>
      ordered C (subrange first last_it (seq m')) \<and>
      mset (subrange first last_it (seq m')) = mset (subrange first last_it (seq m)) \<and>
      take first (seq m') = take first (seq m) \<and>
      drop last_it (seq m') = drop last_it (seq m) \<and>
      trace m' = trace m @ Inplace_merge3 first middle1 middle2 last_it #
        (if int middle1 - int first < int last_it - int middle2
         then [Inplace_merge first middle1 middle2, Inplace_merge first middle2 last_it]
         else [Inplace_merge middle1 middle2 last_it, Inplace_merge first middle1 last_it])"
proof -
  let ?xs = "seq m"
  let ?P = "take first ?xs" and ?X = "subrange first middle1 ?xs"
  let ?Y = "subrange middle1 middle2 ?xs" and ?Z = "subrange middle2 last_it ?xs"
  let ?S = "drop last_it ?xs"
  let ?R = "if length ?X < length ?Z then merge C (merge C ?X ?Y) ?Z
            else merge C ?X (merge C ?Y ?Z)"
  have whole: "subrange first last_it ?xs = ?X @ ?Y @ ?Z"
    using subrange_split [of first middle1 last_it ?xs]
      subrange_split [of middle1 middle2 last_it ?xs] b1 b2 b3 by simp
  have fl: "first \<le> last_it" using b1 b2 b3 by simp
  have dec: "?xs = ?P @ ?X @ ?Y @ ?Z @ ?S"
    using split_range [OF fl b4] whole by simp
  have lP: "length ?P = first" using fl b4 by simp
  have lX: "first + length ?X = middle1" using b1 b2 b3 b4 by (simp add: length_subrange)
  have lY: "middle1 + length ?Y = middle2" using b2 b3 b4 by (simp add: length_subrange)
  have lZ: "middle2 + length ?Z = last_it" using b3 b4 by (simp add: length_subrange)
  have lR: "first + length ?R = last_it"
    using lX lY lZ by (simp add: length_merge)
  note run = inplace_merge3_app [OF dec lP lX lY lZ, of C]
  let ?m' = "the (inplace_merge3 first middle1 middle2 last_it C m)"
  have sq: "seq ?m' = ?P @ ?R @ ?S" by (simp add: run)
  have sl: "subrange first last_it (seq ?m') = ?R"
    unfolding sq using lP lR by (rule subrange_app_mid)
  have cond: "int middle1 - int first < int last_it - int middle2 \<longleftrightarrow> length ?X < length ?Z"
    using lX lY lZ by linarith
  have "ordered C ?R" using swo o1 o2 o3 by (rule ordered_merge3)
  moreover have "mset ?R = mset (subrange first last_it ?xs)"
    unfolding whole by (simp add: mset_merge)
  moreover have "take first (seq ?m') = ?P" unfolding sq using lP by simp
  moreover have "drop last_it (seq ?m') = ?S"
  proof -
    have "length (?P @ ?R) = last_it" using lP lR by simp
    then show ?thesis unfolding sq
      by (metis append.assoc append_eq_conv_conj)
  qed
  moreover have "trace ?m' = trace m @ Inplace_merge3 first middle1 middle2 last_it #
        (if int middle1 - int first < int last_it - int middle2
         then [Inplace_merge first middle1 middle2, Inplace_merge first middle2 last_it]
         else [Inplace_merge middle1 middle2 last_it, Inplace_merge first middle1 last_it])"
    unfolding cond by (simp add: run trace_def)
  ultimately show ?thesis using run sl by auto
qed

theorem inplace_merge3_correct_witness:
  "strict_weak_order ((<) :: nat compare) \<and>
   (0::nat) \<le> 2 \<and> (2::nat) \<le> 3 \<and> (3::nat) \<le> 6 \<and>
   6 \<le> length (seq \<lparr>seq = [1, 4, 2, 3, 5, 6 :: nat], calls = []\<rparr>) \<and>
   ordered (<) (subrange 0 2 (seq \<lparr>seq = [1, 4, 2, 3, 5, 6 :: nat], calls = []\<rparr>)) \<and>
   ordered (<) (subrange 2 3 (seq \<lparr>seq = [1, 4, 2, 3, 5, 6 :: nat], calls = []\<rparr>)) \<and>
   ordered (<) (subrange 3 6 (seq \<lparr>seq = [1, 4, 2, 3, 5, 6 :: nat], calls = []\<rparr>)) \<and>
   (\<exists>m'. inplace_merge3 0 2 3 6 (<) \<lparr>seq = [1, 4, 2, 3, 5, 6 :: nat], calls = []\<rparr> = Some m' \<and>
      ordered (<) (subrange 0 6 (seq m')) \<and>
      mset (subrange 0 6 (seq m')) = mset (subrange 0 6 [1, 4, 2, 3, 5, 6 :: nat]) \<and>
      trace m' = [Inplace_merge3 0 2 3 6, Inplace_merge 0 2 3, Inplace_merge 0 3 6])"
proof -
  let ?m = "\<lparr>seq = [1, 4, 2, 3, 5, 6 :: nat], calls = []\<rparr>"
  have h0: "strict_weak_order ((<) :: nat compare)" by (rule swo_less)
  have h1: "(0::nat) \<le> 2" and h2: "(2::nat) \<le> 3" and h3: "(3::nat) \<le> 6" by simp_all
  have h4: "6 \<le> length (seq ?m)" by simp
  have h5: "ordered (<) (subrange 0 2 (seq ?m))" by (simp add: ordered_def subrange_def)
  have h6: "ordered (<) (subrange 2 3 (seq ?m))" by (simp add: ordered_def subrange_def)
  have h7: "ordered (<) (subrange 3 6 (seq ?m))" by (simp add: ordered_def subrange_def)
  from inplace_merge3_correct [OF h0 h1 h2 h3 h4 h5 h6 h7]
  have "\<exists>m'. inplace_merge3 0 2 3 6 (<) ?m = Some m' \<and>
      ordered (<) (subrange 0 6 (seq m')) \<and>
      mset (subrange 0 6 (seq m')) = mset (subrange 0 6 [1, 4, 2, 3, 5, 6 :: nat]) \<and>
      trace m' = [Inplace_merge3 0 2 3 6, Inplace_merge 0 2 3, Inplace_merge 0 3 6]"
    by (auto simp: trace_def)
  with h0 h4 h5 h6 h7 show ?thesis by simp
qed

end
